theory Spec2Isabelle
  imports Main "HOL-Library.AList"
begin

section \<open>JavaScript values used by the pipeline\<close>

text \<open>
  A JavaScript string is modelled as a \<^typ>\<open>string\<close>, one \<^typ>\<open>char\<close> per code unit
  (code units 0 to 255; every literal of the source is ASCII).

  A \<open>Record<string, string>\<close> is an ordinary object whose own properties are all
  enumerable data properties with string values. It is modelled as the association list
  of its own properties in the order in which \<open>Object.keys\<close>, \<open>for ... in\<close> and object
  spread enumerate them: keys that are array indices first, in ascending numeric order,
  then every other key in the order of creation.
\<close>

type_synonym obj = "(string \<times> string) list"

definition is_digit :: "char \<Rightarrow> bool" where
  "is_digit c = (48 \<le> (of_char c :: nat) \<and> (of_char c :: nat) \<le> 57)"

definition dec_value :: "string \<Rightarrow> nat" where
  "dec_value s = foldl (\<lambda>n c. 10 * n + ((of_char c :: nat) - 48)) 0 s"

text \<open>
  An array index is the canonical decimal string of an integer from 0 to \<open>2^32 - 2\<close>.
\<close>

definition is_array_index :: "string \<Rightarrow> bool" where
  "is_array_index s =
     (s \<noteq> [] \<and> list_all is_digit s \<and> (hd s \<noteq> CHR ''0'' \<or> s = ''0'')
      \<and> dec_value s < 4294967295)"

text \<open>
  A new array index \<open>k\<close> goes after the array indices below it. (No other key has the
  numeric value of \<open>k\<close>, array indices being canonical.)
\<close>

fun insert_index :: "string \<Rightarrow> string \<Rightarrow> obj \<Rightarrow> obj" where
  "insert_index k v [] = [(k, v)]"
| "insert_index k v ((k', v') # ps) =
     (if is_array_index k' \<and> dec_value k' \<le> dec_value k
      then (k', v') # insert_index k v ps
      else (k, v) # (k', v') # ps)"

text \<open>
  Creating or overwriting the own data property \<open>k\<close> (what object spread and
  \<open>Object.assign\<close> do for each copied key, and what \<open>o[k] = v\<close> does for an own key): an
  existing property keeps its place; a new one goes among the array indices or to the end.
\<close>

definition obj_put :: "obj \<Rightarrow> string \<Rightarrow> string \<Rightarrow> obj" where
  "obj_put ob k v =
     (if k \<in> fst ` set ob then AList.update k v ob
      else if is_array_index k then insert_index k v ob
      else ob @ [(k, v)])"

text \<open>\<open>Object.assign(target, src)\<close>: the own properties of \<open>src\<close>, in order, put on \<open>target\<close>.\<close>

definition obj_assign :: "obj \<Rightarrow> obj \<Rightarrow> obj" where
  "obj_assign target src = foldl (\<lambda>ob (k, v). obj_put ob k v) target src"

text \<open>The object literal \<open>{ ...a, ...b }\<close>.\<close>

definition spread2 :: "obj \<Rightarrow> obj \<Rightarrow> obj" where
  "spread2 a b = obj_assign (obj_assign [] a) b"

text \<open>\<open>Object.keys(o)\<close>; \<open>Object.keys(o).length > 0\<close> is \<open>Object_keys o \<noteq> []\<close>.\<close>

definition Object_keys :: "obj \<Rightarrow> string list" where
  "Object_keys ob = map fst ob"

text \<open>
  The property names every ordinary object inherits from \<open>Object.prototype\<close>; each of
  them reads as a function or an object, hence as a truthy value.
\<close>

definition Object_prototype_keys :: "string list" where
  "Object_prototype_keys =
     [''constructor'', ''__defineGetter__'', ''__defineSetter__'', ''hasOwnProperty'',
      ''__lookupGetter__'', ''__lookupSetter__'', ''isPrototypeOf'',
      ''propertyIsEnumerable'', ''toString'', ''valueOf'', ''__proto__'',
      ''toLocaleString'']"

text \<open>
  The truthiness of \<open>o[k]\<close>: an own property is truthy when its string is not empty;
  a key that is not an own property is looked up on \<open>Object.prototype\<close>; anything else
  reads \<open>undefined\<close>.
\<close>

definition truthy_at :: "obj \<Rightarrow> string \<Rightarrow> bool" where
  "truthy_at ob k =
     (case map_of ob k of
        Some v \<Rightarrow> v \<noteq> []
      | None \<Rightarrow> k \<in> set Object_prototype_keys)"

text \<open>
  The two invariants of the representation: keys are distinct, and every array index
  stands before every other key, the indices ascending (strictly so, the keys being
  distinct).
\<close>

fun js_ordered :: "string list \<Rightarrow> bool" where
  "js_ordered [] = True"
| "js_ordered [k] = True"
| "js_ordered (k # k' # ks) =
     ((is_array_index k' \<longrightarrow> is_array_index k \<and> dec_value k \<le> dec_value k')
      \<and> js_ordered (k' # ks))"

definition wf_obj :: "obj \<Rightarrow> bool" where
  "wf_obj ob = (distinct (map fst ob) \<and> js_ordered (map fst ob))"

section \<open>TruthResolver (logic/resolver.ts)\<close>

text \<open>
  \<open>{ colors, spacing }\<close> is the shape of \<open>ResolvedTruth\<close>, of each bucket of
  \<open>ExtractedTruth\<close> and of the default theme; TypeScript types are structural, so one
  record serves the three.
\<close>

record TokenFamilies =
  colors :: obj
  spacing :: obj

type_synonym ResolvedTruth = TokenFamilies

text \<open>
  The fields \<open>extend\<close> and \<open>override\<close> of the source; \<open>extend\<close> is a name the record
  package reserves, so both carry a suffix.
\<close>

record ExtractedTruth =
  extend_bucket :: TokenFamilies
  override_bucket :: TokenFamilies

text \<open>
  \<open>defaultTheme\<close> is the JSON asset \<open>assets/tailwind-defaults.json\<close>, a fixed table of
  default colors and spacing steps; it is a parameter of the model.
\<close>

definition resolveTruth :: "TokenFamilies \<Rightarrow> ExtractedTruth \<Rightarrow> ResolvedTruth" where
  "resolveTruth defaultTheme userTruth =
     (let finalColors =
            (if length (Object_keys (colors (override_bucket userTruth))) > 0
             then spread2 (colors (override_bucket userTruth)) (colors (extend_bucket userTruth))
             else spread2 (colors defaultTheme) (colors (extend_bucket userTruth)));
          finalSpacing =
            (if length (Object_keys (spacing (override_bucket userTruth))) > 0
             then spread2 (spacing (override_bucket userTruth)) (spacing (extend_bucket userTruth))
             else spread2 (spacing defaultTheme) (spacing (extend_bucket userTruth)))
      in \<lparr> colors = finalColors, spacing = finalSpacing \<rparr>)"

section \<open>ConfigExtractor (logic/extractor.ts)\<close>

text \<open>
  The values \<open>flattenObject\<close> can meet (its parameter has type \<open>any\<close>): a plain object,
  given by the properties that \<open>for ... in\<close> enumerates, in that order; a string; an
  array; \<open>null\<close>; anything else (a number, a boolean, \<open>undefined\<close>, a function).
\<close>

datatype jsvalue =
    JObject "(string \<times> jsvalue) list"
  | JString string
  | JArray "jsvalue list"
  | JNull
  | JOther

text \<open>
  \<open>flattenObject(obj, prefix)\<close> for a plain object \<open>obj\<close>: the loop over the properties,
  with the object \<open>result\<close> built so far. \<open>prefix\<close> is tested for truthiness, so the empty
  prefix adds no dash. A nested plain object is flattened and copied on \<open>result\<close> by
  \<open>Object.assign\<close>; a string is stored by \<open>result[newKey] = value\<close>, which for the key
  \<open>__proto__\<close> calls the inherited setter and stores nothing; any other value is
  skipped.
\<close>

fun flatten_loop :: "(string \<times> jsvalue) list \<Rightarrow> string \<Rightarrow> obj \<Rightarrow> obj" where
  "flatten_loop [] prefix result = result"
| "flatten_loop ((key, v) # rest) prefix result =
     (let newKey = (if prefix \<noteq> [] then prefix @ ''-'' @ key else key)
      in flatten_loop rest prefix
           (case v of
              JObject props \<Rightarrow> obj_assign result (flatten_loop props newKey [])
            | JString s \<Rightarrow> (if newKey = ''__proto__'' then result else obj_put result newKey s)
            | _ \<Rightarrow> result))"

definition flattenObject :: "(string \<times> jsvalue) list \<Rightarrow> string \<Rightarrow> obj" where
  "flattenObject props prefix = flatten_loop props prefix []"

text \<open>
  An error object: \<open>new ConfigParseError(message)\<close> is an \<open>Error\<close> whose \<open>name\<close> is
  \<open>ConfigParseError\<close>.
\<close>

record js_error =
  name :: string
  message :: string

definition ConfigParseError :: "string \<Rightarrow> js_error" where
  "ConfigParseError msg = \<lparr> name = ''ConfigParseError'', message = msg \<rparr>"

text \<open>
  What \<open>extractTruth\<close> takes from outside the repository: the file system (\<open>path.join\<close>,
  \<open>fs.existsSync\<close>, \<open>fs.readFileSync\<close>, which returns the content or throws), the Babel
  parser (which returns a syntax tree or throws) and the Babel traversal running the
  visitor of \<open>extractTruth\<close>, which leaves the four accumulator objects \<open>extendColors\<close>,
  \<open>extendSpacing\<close>, \<open>overrideColors\<close>, \<open>overrideSpacing\<close> or throws. A thrown value is
  given by the text that the template literal \<open>${error}\<close> prints for it.
\<close>

record accumulators =
  extendColors :: "(string \<times> jsvalue) list"
  extendSpacing :: "(string \<times> jsvalue) list"
  overrideColors :: "(string \<times> jsvalue) list"
  overrideSpacing :: "(string \<times> jsvalue) list"

record 'ast environment =
  path_join :: "string \<Rightarrow> string \<Rightarrow> string"
  existsSync :: "string \<Rightarrow> bool"
  readFileSync :: "string \<Rightarrow> string + string"
  parse :: "string \<Rightarrow> string + 'ast"
  traverse :: "'ast \<Rightarrow> string + accumulators"

definition configFiles :: "string list" where
  "configFiles = [''tailwind.config.js'', ''tailwind.config.ts'', ''tailwind.config.cjs'']"

text \<open>
  The first loop of \<open>extractTruth\<close>: the path of the first configuration file that
  exists. The test \<open>!configPath\<close> that follows also holds for an empty path.
\<close>

definition find_config :: "'ast environment \<Rightarrow> string \<Rightarrow> string option" where
  "find_config env projectRoot =
     List.find (existsSync env) (map (path_join env projectRoot) configFiles)"

definition extractTruth :: "'ast environment \<Rightarrow> string \<Rightarrow> js_error + ExtractedTruth" where
  "extractTruth env projectRoot =
     (case find_config env projectRoot of
        None \<Rightarrow> Inl (ConfigParseError ''No tailwind config file found'')
      | Some configPath \<Rightarrow>
          if configPath = [] then Inl (ConfigParseError ''No tailwind config file found'')
          else
          (case readFileSync env configPath of
             Inl err \<Rightarrow> Inl (ConfigParseError (''Failed to read config file: '' @ err))
           | Inr src \<Rightarrow>
               (case parse env src of
                  Inl err \<Rightarrow> Inl (ConfigParseError (''Failed to parse config file: '' @ err))
                | Inr ast \<Rightarrow>
                    (case traverse env ast of
                       Inl err \<Rightarrow> Inl (ConfigParseError (''Failed to traverse AST: '' @ err))
                     | Inr acc \<Rightarrow>
                         Inr \<lparr> extend_bucket =
                                 \<lparr> colors = flattenObject (extendColors acc) [],
                                   spacing = flattenObject (extendSpacing acc) [] \<rparr>,
                               override_bucket =
                                 \<lparr> colors = flattenObject (overrideColors acc) [],
                                   spacing = flattenObject (overrideSpacing acc) [] \<rparr> \<rparr>))))"

section \<open>SuggestionEngine (levenshtein and findClosest of logic/validator.ts)\<close>

text \<open>
  \<open>xs[i] = v\<close> on a JavaScript array, for \<open>i\<close> up to the length of the array: inside
  the array the element is replaced, at \<open>i = length\<close> the array grows by one. Every
  write of \<open>levenshtein\<close> is of this kind (rows start as \<open>[i]\<close> and are filled from
  \<open>j = 1\<close> upwards; row 0 is filled from \<open>j = 0\<close>).
\<close>

definition arr_set :: "'a list \<Rightarrow> nat \<Rightarrow> 'a \<Rightarrow> 'a list" where
  "arr_set xs i v = (if i < length xs then xs[i := v] else xs @ [v])"

text \<open>\<open>matrix[i][j] = v\<close>.\<close>

definition arr_set2 :: "'a list list \<Rightarrow> nat \<Rightarrow> nat \<Rightarrow> 'a \<Rightarrow> 'a list list" where
  "arr_set2 matrix i j v = matrix[i := arr_set (matrix ! i) j v]"

text \<open>The body of the inner loop of \<open>levenshtein\<close>, for \<open>1 \<le> i \<le> b.length\<close> and
  \<open>1 \<le> j \<le> a.length\<close>.\<close>

definition lev_cell :: "'a list \<Rightarrow> 'a list \<Rightarrow> nat list list \<Rightarrow> nat \<Rightarrow> nat \<Rightarrow> nat list list" where
  "lev_cell a b matrix i j =
     (if b ! (i - 1) = a ! (j - 1)
      then arr_set2 matrix i j (matrix ! (i - 1) ! (j - 1))
      else arr_set2 matrix i j
             (min (matrix ! (i - 1) ! (j - 1) + 1)
                (min (matrix ! i ! (j - 1) + 1) (matrix ! (i - 1) ! j + 1))))"

text \<open>
  The three \<open>for\<close> loops run over fixed index ranges, so each is a fold over its range.
  The function is polymorphic in the type of code units.
\<close>

definition levenshtein :: "'a list \<Rightarrow> 'a list \<Rightarrow> nat" where
  "levenshtein a b =
     (let matrix0 = foldl (\<lambda>matrix i. arr_set matrix i [i]) [] [0 ..< Suc (length b)];
          matrix1 = foldl (\<lambda>matrix j. arr_set2 matrix 0 j j) matrix0 [0 ..< Suc (length a)];
          matrix2 = foldl (\<lambda>matrix i. foldl (\<lambda>matrix j. lev_cell a b matrix i j) matrix
                                        [1 ..< Suc (length a)])
                      matrix1 [1 ..< Suc (length b)]
      in matrix2 ! length b ! length a)"

text \<open>
  \<open>Array.prototype.sort\<close> is stable, and the comparator \<open>a.distance - b.distance\<close> orders
  by distance: this is \<^const>\<open>sort_key\<close>. \<open>slice(0, 3)\<close> is \<open>take 3\<close>.
\<close>

definition findClosest :: "'a list \<Rightarrow> 'a list list \<Rightarrow> 'a list list" where
  "findClosest target options =
     (let distances = map (\<lambda>option. (option, levenshtein target option)) options
      in map fst (take 3 (sort_key snd distances)))"

section \<open>ClassTokenizer (extractClasses of logic/validator.ts)\<close>

text \<open>
  The regular expression of \<open>extractClasses\<close> is
  \<^verbatim>\<open>className\s*=\s*{?["'`]([^"'`]+)["'`]}?|class\s*=\s*["']([^"']+)["']\<close>
  with the flag \<open>g\<close>. Each alternative is matched here by a function that returns the
  captured group and the input left after the match. Backtracking never finds a match
  that the greedy run misses: the character after \<open>\s*\<close> must be \<open>=\<close>, \<open>{\<close> or a
  quote, none of which is white space; a \<open>{\<close> left unmatched by \<open>{?\<close> is not a quote;
  and the character after the group must be a quote, which the group cannot contain.

  \<open>\s\<close>, among the code units up to 255: tab, line feed, vertical tab, form feed,
  carriage return, space and no-break space.
\<close>

definition is_space :: "char \<Rightarrow> bool" where
  "is_space c = (c \<in> set [CHR 0x09, CHR 0x0A, CHR 0x0B, CHR 0x0C, CHR 0x0D, CHR 0x20, CHR 0xA0])"

text \<open>The characters \<open>"\<close>, \<open>'\<close> and \<open>`\<close>.\<close>

definition quote3 :: "char \<Rightarrow> bool" where
  "quote3 c = (c = CHR 0x22 \<or> c = CHR 0x27 \<or> c = CHR 0x60)"

definition quote2 :: "char \<Rightarrow> bool" where
  "quote2 c = (c = CHR 0x22 \<or> c = CHR 0x27)"

fun strip_literal :: "string \<Rightarrow> string \<Rightarrow> string option" where
  "strip_literal [] s = Some s"
| "strip_literal (c # cs) [] = None"
| "strip_literal (c # cs) (d # ds) = (if c = d then strip_literal cs ds else None)"

text \<open>\<open>quote ([^quote]+) quote\<close> at the head of the input.\<close>

definition quoted_group :: "(char \<Rightarrow> bool) \<Rightarrow> string \<Rightarrow> (string \<times> string) option" where
  "quoted_group quote s =
     (case s of
        [] \<Rightarrow> None
      | q # r \<Rightarrow>
          if \<not> quote q then None
          else let body = takeWhile (\<lambda>c. \<not> quote c) r
               in if body = [] then None
                  else (case dropWhile (\<lambda>c. \<not> quote c) r of
                          [] \<Rightarrow> None
                        | q' # rest \<Rightarrow> Some (body, rest)))"

text \<open>\<open>lit \s* = \s*\<close> at the head of the input.\<close>

definition attr_head :: "string \<Rightarrow> string \<Rightarrow> string option" where
  "attr_head lit s =
     (case strip_literal lit s of
        None \<Rightarrow> None
      | Some r \<Rightarrow>
          (case dropWhile is_space r of
             [] \<Rightarrow> None
           | e # r' \<Rightarrow> if e = CHR ''='' then Some (dropWhile is_space r') else None))"

definition opt_char :: "char \<Rightarrow> string \<Rightarrow> string" where
  "opt_char c s = (case s of [] \<Rightarrow> [] | d # r \<Rightarrow> if d = c then r else s)"

definition match_className :: "string \<Rightarrow> (string \<times> string) option" where
  "match_className s =
     (case attr_head ''className'' s of
        None \<Rightarrow> None
      | Some r \<Rightarrow>
          (case quoted_group quote3 (opt_char CHR ''{'' r) of
             None \<Rightarrow> None
           | Some (body, rest) \<Rightarrow> Some (body, opt_char CHR ''}'' rest)))"

definition match_class :: "string \<Rightarrow> (string \<times> string) option" where
  "match_class s =
     (case attr_head ''class'' s of
        None \<Rightarrow> None
      | Some r \<Rightarrow> quoted_group quote2 r)"

text \<open>One match attempt at the head of the input: the first alternative, then the second.
  The captured string is \<open>match[1] || match[2]\<close>; a group is never empty.\<close>

definition match_here :: "string \<Rightarrow> (string \<times> string) option" where
  "match_here s = (case match_className s of Some m \<Rightarrow> Some m | None \<Rightarrow> match_class s)"

text \<open>\<open>classString.split(/\s+/)\<close>: the pieces between maximal runs of white space,
  the empty ones at the ends included. The flag tells whether the last character was
  white space.\<close>

fun split_ws :: "string \<Rightarrow> bool \<Rightarrow> string \<Rightarrow> string list" where
  "split_ws cur in_sep [] = [cur]"
| "split_ws cur in_sep (c # cs) =
     (if is_space c
      then (if in_sep then split_ws cur True cs else cur # split_ws [] True cs)
      else split_ws (cur @ [c]) False cs)"

text \<open>\<open>classString.split(/\s+/).filter(Boolean)\<close>.\<close>

definition class_tokens :: "string \<Rightarrow> string list" where
  "class_tokens classString = filter (\<lambda>t. t \<noteq> []) (split_ws [] False classString)"

text \<open>
  The loop \<open>while ((match = classRegex.exec(code)) !== null)\<close>: \<open>exec\<close> looks for the
  leftmost match from \<open>lastIndex\<close> on and leaves \<open>lastIndex\<close> at the end of the match.
  The argument is the input from \<open>lastIndex\<close> on. A match is never empty, so what is
  left after it is shorter than the input; the test that says so only serves the
  termination proof, and lemma \<open>match_here_shorter\<close> shows that it always holds.
\<close>

function scan_classes :: "string \<Rightarrow> string list" where
  "scan_classes [] = []"
| "scan_classes (c # cs) =
     (case match_here (c # cs) of
        None \<Rightarrow> scan_classes cs
      | Some (classString, rest) \<Rightarrow>
          if length rest < length (c # cs)
          then class_tokens classString @ scan_classes rest
          else [])"
  by pat_completeness auto
termination
  by (relation "measure length") auto

definition extractClasses :: "string \<Rightarrow> string list" where
  "extractClasses code = scan_classes code"

section \<open>PrefixMatcher and CategoryValidator (logic/validator.ts)\<close>

text \<open>
  \<open>SCOPED_PREFIXES\<close>, as \<open>Object.entries\<close> lists it: the categories in the order of the
  object literal, each with its array of prefixes.
\<close>

definition SCOPED_PREFIXES :: "(string \<times> string list) list" where
  "SCOPED_PREFIXES =
     [(''colors'', [''bg-'', ''text-'', ''border-'', ''ring-'', ''divide-'']),
      (''spacing'',
         [''p-'', ''pt-'', ''pr-'', ''pb-'', ''pl-'', ''px-'', ''py-'', ''m-'', ''mt-'',
          ''mr-'', ''mb-'', ''ml-'', ''mx-'', ''my-'', ''gap-'', ''gap-x-'', ''gap-y-'',
          ''space-x-'', ''space-y-'']),
      (''layout'',
         [''flex'', ''flex-'', ''grid'', ''grid-'', ''block'', ''hidden'', ''inline'',
          ''inline-block'', ''inline-flex'', ''inline-grid'',
          ''w-'', ''h-'', ''min-w-'', ''max-w-'', ''min-h-'', ''max-h-'',
          ''justify-'', ''items-'', ''content-'', ''self-'', ''col-'', ''row-'',
          ''relative'', ''absolute'', ''fixed'', ''sticky'',
          ''top-'', ''bottom-'', ''left-'', ''right-'', ''inset-'',
          ''z-'', ''flex-wrap'', ''order-'', ''overflow-'',
          ''border-t-'', ''border-b-'', ''border-l-'', ''border-r-'', ''border-x-'',
          ''border-y-'']),
      (''typography'',
         [''font-'', ''leading-'', ''tracking-'', ''text-'',
          ''uppercase'', ''lowercase'', ''capitalize'', ''normal-case'',
          ''list-'', ''italic'', ''underline'',
          ''text-center'', ''text-left'', ''text-right'']),
      (''decoration'',
         [''rounded-'', ''rounded'', ''shadow-'', ''shadow'',
          ''opacity-'', ''cursor-'',
          ''border-t'', ''border-b'', ''border-l'', ''border-r'',
          ''ring-'', ''outline-'', ''transition-'', ''duration-''])]"

definition STANDARD_SIZE_KEYWORDS :: "string list" where
  "STANDARD_SIZE_KEYWORDS = [''full'', ''screen'', ''min'', ''max'', ''fit'', ''auto'', ''px'']"

definition TEXT_SIZES :: "string list" where
  "TEXT_SIZES = [''xs'', ''sm'', ''base'', ''lg'', ''xl'', ''2xl'', ''3xl'', ''4xl'', ''5xl'',
                 ''6xl'', ''7xl'', ''8xl'', ''9xl'']"

definition BORDER_WIDTHS :: "string list" where
  "BORDER_WIDTHS = [''0'', ''2'', ''4'', ''8'']"

text \<open>\<open>s.startsWith(p)\<close> and \<open>s.endsWith('-')\<close>.\<close>

definition startsWith :: "string \<Rightarrow> string \<Rightarrow> bool" where
  "startsWith s p = (take (length p) s = p)"

definition endsWith_dash :: "string \<Rightarrow> bool" where
  "endsWith_dash s = (s \<noteq> [] \<and> last s = CHR ''-'')"

text \<open>
  The body of the inner loop of \<open>findLongestMatch\<close>; the state is the pair of
  \<open>longestMatch\<close> and \<open>longestLength\<close>.
\<close>

definition try_prefix ::
  "string \<Rightarrow> string \<Rightarrow> (string \<times> string) option \<times> nat \<Rightarrow> string
   \<Rightarrow> (string \<times> string) option \<times> nat" where
  "try_prefix className category st prefix =
     (if \<not> endsWith_dash prefix
      then (if className = prefix \<and> length prefix > snd st
            then (Some (category, prefix), length prefix) else st)
      else (if startsWith className prefix \<and> length prefix > snd st
            then (Some (category, prefix), length prefix) else st))"

text \<open>The two nested loops over a prefix table, and \<open>findLongestMatch\<close> itself.\<close>

definition longest_in ::
  "(string \<times> string list) list \<Rightarrow> string \<Rightarrow> (string \<times> string) option" where
  "longest_in table className =
     fst (foldl (\<lambda>st (category, prefixes). foldl (try_prefix className category) st prefixes)
            (None, 0) table)"

definition findLongestMatch :: "string \<Rightarrow> (string \<times> string) option" where
  "findLongestMatch className = longest_in SCOPED_PREFIXES className"

definition extractToken :: "string \<Rightarrow> string \<Rightarrow> string" where
  "extractToken className prefix =
     (if \<not> endsWith_dash prefix then [] else drop (length prefix) className)"

text \<open>The regular expression \<^verbatim>\<open>^\d+\/\d+$\<close>.\<close>

definition is_fraction :: "string \<Rightarrow> bool" where
  "is_fraction token =
     (takeWhile is_digit token \<noteq> [] \<and>
      (case dropWhile is_digit token of
         [] \<Rightarrow> False
       | c # r \<Rightarrow> c = CHR ''/'' \<and> r \<noteq> [] \<and> list_all is_digit r))"

definition isStandardSizeKeyword :: "string \<Rightarrow> bool" where
  "isStandardSizeKeyword token = (token \<in> set STANDARD_SIZE_KEYWORDS \<or> is_fraction token)"

record ValidationResult =
  isValid :: bool
  code :: string
  errors :: "string list"

text \<open>\<open>xs.join(sep)\<close>.\<close>

fun join :: "string \<Rightarrow> string list \<Rightarrow> string" where
  "join sep [] = []"
| "join sep [x] = x"
| "join sep (x # y # zs) = x @ sep @ join sep (y # zs)"

text \<open>The two error messages of \<open>validateCode\<close>.\<close>

definition arbitrary_message :: "string \<Rightarrow> string" where
  "arbitrary_message className =
     ''Invalid arbitrary value: '' @ [CHR 0x27] @ className @ [CHR 0x27]
       @ ''. Arbitrary values are not allowed.''"

definition suggestion_message :: "string \<Rightarrow> string \<Rightarrow> string list \<Rightarrow> string" where
  "suggestion_message className prefix suggestions =
     (let suggestionText = join '', '' (map (\<lambda>s. [CHR 0x27] @ prefix @ s @ [CHR 0x27]) suggestions)
      in ''Invalid class '' @ [CHR 0x27] @ className @ [CHR 0x27] @ ''. Did you mean: ''
           @ suggestionText @ ''?'')"

text \<open>
  The state of the loop of \<open>validateCode\<close>: \<open>validClasses\<close>, \<open>errors\<close> and \<open>isValid\<close>.
  A branch of the loop body either pushes the class on \<open>validClasses\<close> or pushes a
  message on \<open>errors\<close> and clears \<open>isValid\<close>. (\<open>console.log\<close> is not modelled.)
\<close>

type_synonym loop_state = "string list \<times> string list \<times> bool"

definition push_valid :: "string \<Rightarrow> loop_state \<Rightarrow> loop_state" where
  "push_valid className st = (case st of (validClasses, errs, ok) \<Rightarrow> (validClasses @ [className], errs, ok))"

definition push_error :: "string \<Rightarrow> loop_state \<Rightarrow> loop_state" where
  "push_error msg st = (case st of (validClasses, errs, ok) \<Rightarrow> (validClasses, errs @ [msg], False))"

text \<open>
  The check shared by the truth-governed branches:
  \<open>if (token && !family[token]) { ... reject with suggestions from pool ... } else accept\<close>.
\<close>

definition check_token ::
  "string \<Rightarrow> string \<Rightarrow> string \<Rightarrow> bool \<Rightarrow> string list \<Rightarrow> loop_state \<Rightarrow> loop_state" where
  "check_token className prefix token known pool st =
     (if token \<noteq> [] \<and> \<not> known
      then push_error (suggestion_message className prefix (findClosest token pool)) st
      else push_valid className st)"

text \<open>
  Step C of the loop body: the validation of a class by the category and the prefix of
  its longest match.
\<close>

definition validate_matched ::
  "ResolvedTruth \<Rightarrow> loop_state \<Rightarrow> string \<Rightarrow> string \<Rightarrow> string \<Rightarrow> loop_state" where
  "validate_matched resolvedTruth st className category prefix =
     (let token = extractToken className prefix in
      if category = ''colors'' then
        (if prefix = ''text-'' then
           (if token \<in> set TEXT_SIZES then push_valid className st
            else check_token className prefix token
                   (truthy_at (colors resolvedTruth) token)
                   (Object_keys (colors resolvedTruth)) st)
         else if prefix = ''border-'' then
           (if token \<in> set BORDER_WIDTHS then push_valid className st
            else check_token className prefix token
                   (truthy_at (colors resolvedTruth) token)
                   (Object_keys (colors resolvedTruth)) st)
         else check_token className prefix token
                (truthy_at (colors resolvedTruth) token)
                (Object_keys (colors resolvedTruth)) st)
      else if category = ''spacing'' then
        check_token className prefix token
          (truthy_at (spacing resolvedTruth) token)
          (Object_keys (spacing resolvedTruth)) st
      else if category = ''layout'' then
        (if startsWith prefix ''w-'' \<or> startsWith prefix ''h-''
            \<or> startsWith prefix ''min-'' \<or> startsWith prefix ''max-'' then
           check_token className prefix token
             (isStandardSizeKeyword token \<or> truthy_at (spacing resolvedTruth) token)
             (STANDARD_SIZE_KEYWORDS @ Object_keys (spacing resolvedTruth)) st
         else if startsWith prefix ''border-t-'' \<or> startsWith prefix ''border-b-''
            \<or> startsWith prefix ''border-l-'' \<or> startsWith prefix ''border-r-''
            \<or> startsWith prefix ''border-x-'' \<or> startsWith prefix ''border-y-'' then
           check_token className prefix token
             (truthy_at (spacing resolvedTruth) token)
             (Object_keys (spacing resolvedTruth)) st
         else push_valid className st)
      else push_valid className st)"

text \<open>
  The body of the loop of \<open>validateCode\<close>: step A (the arbitrary-value check), step B
  (the longest match; a class without one is kept) and step C.
\<close>

definition validate_class :: "ResolvedTruth \<Rightarrow> loop_state \<Rightarrow> string \<Rightarrow> loop_state" where
  "validate_class resolvedTruth st className =
     (if CHR ''['' \<in> set className \<and> CHR '']'' \<in> set className
      then push_error (arbitrary_message className) st
      else
        (case findLongestMatch className of
           None \<Rightarrow> push_valid className st
         | Some (category, prefix) \<Rightarrow>
             validate_matched resolvedTruth st className category prefix))"

definition validate_classes :: "ResolvedTruth \<Rightarrow> string list \<Rightarrow> loop_state" where
  "validate_classes resolvedTruth classes =
     foldl (validate_class resolvedTruth) ([], [], True) classes"

definition validateCode :: "string \<Rightarrow> ResolvedTruth \<Rightarrow> ValidationResult" where
  "validateCode src resolvedTruth =
     (case validate_classes resolvedTruth (extractClasses src) of
        (validClasses, errs, ok) \<Rightarrow>
          \<lparr> isValid = ok, code = join '' '' validClasses, errors = errs \<rparr>)"

section \<open>Specification-level notions for the resolver\<close>

text \<open>
  Well-formedness of the inputs of \<open>resolveTruth\<close>: every bucket is the representation
  of a JavaScript object.
\<close>

definition wf_families :: "TokenFamilies \<Rightarrow> bool" where
  "wf_families f = (wf_obj (colors f) \<and> wf_obj (spacing f))"

definition wf_truth :: "ExtractedTruth \<Rightarrow> bool" where
  "wf_truth t = (wf_families (extend_bucket t) \<and> wf_families (override_bucket t))"

text \<open>
  The baseline of a token family, in the words of the specification: the override
  bucket when it is not empty, the built-in default set otherwise.
\<close>

definition baseline :: "obj \<Rightarrow> obj \<Rightarrow> obj" where
  "baseline override_family default_family =
     (if override_family \<noteq> [] then override_family else default_family)"

text \<open>An extracted truth whose four buckets are empty.\<close>

definition empty_truth :: ExtractedTruth where
  "empty_truth =
     \<lparr> extend_bucket = \<lparr> colors = [], spacing = [] \<rparr>,
       override_bucket = \<lparr> colors = [], spacing = [] \<rparr> \<rparr>"

text \<open>A small default theme and an extracted truth with an override for spacing only.\<close>

definition sample_defaults :: TokenFamilies where
  "sample_defaults =
     \<lparr> colors = [(''red'', ''#ef4444''), (''blue'', ''#3b82f6'')],
       spacing = [(''0'', ''0px''), (''4'', ''1rem''), (''px'', ''1px'')] \<rparr>"

definition sample_truth :: ExtractedTruth where
  "sample_truth =
     \<lparr> extend_bucket =
         \<lparr> colors = [(''red'', ''#ff0000''), (''brand'', ''#123456'')],
           spacing = [(''2'', ''0.5rem''), (''4'', ''18px'')] \<rparr>,
       override_bucket =
         \<lparr> colors = [],
           spacing = [(''4'', ''16px''), (''8'', ''32px'')] \<rparr> \<rparr>"

section \<open>Specification-level notions for the prefix matcher\<close>

text \<open>
  When a prefix matches a token, in the words of the specification: a prefix without
  the trailing separator matches on equality, one with it matches when the token starts
  with it.
\<close>

definition prefix_matches :: "string \<Rightarrow> string \<Rightarrow> bool" where
  "prefix_matches className prefix =
     (if endsWith_dash prefix then startsWith className prefix else className = prefix)"

text \<open>The (category, prefix) pairs of a table in registration order.\<close>

definition table_pairs :: "(string \<times> string list) list \<Rightarrow> (string \<times> string) list" where
  "table_pairs table = concat (map (\<lambda>(category, prefixes). map (Pair category) prefixes) table)"

text \<open>
  Entry \<open>i\<close> of a list of pairs is the first longest match of a token: it matches, no
  matching entry has a longer prefix, and no earlier entry matches with a prefix of the
  same length.
\<close>

definition first_longest :: "string \<Rightarrow> (string \<times> string) list \<Rightarrow> nat \<Rightarrow> bool" where
  "first_longest className ps i =
     (i < length ps \<and> prefix_matches className (snd (ps ! i)) \<and>
      (\<forall>j < length ps. prefix_matches className (snd (ps ! j)) \<longrightarrow>
         length (snd (ps ! j)) \<le> length (snd (ps ! i)) \<and>
         (length (snd (ps ! j)) = length (snd (ps ! i)) \<longrightarrow> i \<le> j)))"

text \<open>
  The invariant of the loops of \<open>findLongestMatch\<close> after the pairs \<open>ps\<close>: with no match
  so far the length is 0 and no pair of \<open>ps\<close> matches; otherwise the state holds the first
  longest match among \<open>ps\<close> and the length of its prefix.
\<close>

definition loop_inv :: "string \<Rightarrow> (string \<times> string) list \<Rightarrow> (string \<times> string) option \<times> nat \<Rightarrow> bool" where
  "loop_inv cn ps st =
     (case fst st of
        None \<Rightarrow> snd st = 0 \<and> (\<forall>j < length ps. \<not> prefix_matches cn (snd (ps ! j)))
      | Some x \<Rightarrow> snd st = length (snd x) \<and> (\<exists>i. first_longest cn ps i \<and> ps ! i = x))"

section \<open>Specification-level notions for the validator\<close>

text \<open>
  A token is rejected when the loop body, run on it alone, clears \<open>isValid\<close>; its message
  is the one the loop body pushes then.
\<close>

definition rejects :: "ResolvedTruth \<Rightarrow> string \<Rightarrow> bool" where
  "rejects resolvedTruth className =
     (\<not> snd (snd (validate_class resolvedTruth ([], [], True) className)))"

definition rejection_message :: "ResolvedTruth \<Rightarrow> string \<Rightarrow> string" where
  "rejection_message resolvedTruth className =
     last (fst (snd (validate_class resolvedTruth ([], [], True) className)))"

text \<open>A class token: a non-empty string without white space.\<close>

definition token_ok :: "string \<Rightarrow> bool" where
  "token_ok v = (v \<noteq> [] \<and> list_all (\<lambda>ch. \<not> is_space ch) v)"

text \<open>The strict prefixes: those of the categories \<open>colors\<close> and \<open>spacing\<close>.\<close>

definition strict_prefixes :: "string list" where
  "strict_prefixes =
     concat (map snd (filter (\<lambda>(category, prefixes). category = ''colors'' \<or> category = ''spacing'')
                        SCOPED_PREFIXES))"

text \<open>A sample markup and a sample resolved truth.\<close>

definition sample_markup :: string where
  "sample_markup = ''<div class='' @ [CHR 0x22] @ ''bg-red text-giant p-4'' @ [CHR 0x22] @ ''></div>''"

definition sample_resolved :: ResolvedTruth where
  "sample_resolved =
     \<lparr> colors = [(''red'', ''#ef4444''), (''blue-500'', ''#3b82f6'')],
       spacing = [(''4'', ''1rem'')] \<rparr>"

text \<open>Markups with a bracketed class and with bare strict prefixes.\<close>

definition arbitrary_markup :: string where
  "arbitrary_markup = ''<div className='' @ [CHR 0x22] @ ''w-[50px] p-4'' @ [CHR 0x22] @ ''/>''"

definition bare_markup :: string where
  "bare_markup = ''<p class='' @ [CHR 0x27] @ ''bg- p-'' @ [CHR 0x27] @ ''>''"

section \<open>Specification-level notions for the suggestion engine\<close>

text \<open>
  One single-character edit, in the words of the specification: the insertion, the
  deletion or the substitution of one character at any position.
\<close>

inductive one_edit :: "'a list \<Rightarrow> 'a list \<Rightarrow> bool" where
  insertion: "one_edit (u @ v) (u @ c # v)"
| deletion: "one_edit (u @ c # v) (u @ v)"
| substitution: "one_edit (u @ c # v) (u @ d # v)"

text \<open>The edit distance: the least number of single-character edits from \<open>a\<close> to \<open>b\<close>.\<close>

definition edit_distance :: "'a list \<Rightarrow> 'a list \<Rightarrow> nat" where
  "edit_distance a b = (LEAST n. (one_edit ^^ n) a b)"

text \<open>The textbook recurrence of the edit distance, used in the proofs.\<close>

fun lev_rec :: "'a list \<Rightarrow> 'a list \<Rightarrow> nat" where
  "lev_rec [] ys = length ys"
| "lev_rec (x # xs) [] = Suc (length xs)"
| "lev_rec (x # xs) (y # ys) =
     min (lev_rec xs ys + (if x = y then 0 else 1))
       (min (lev_rec (x # xs) ys + 1) (lev_rec xs (y # ys) + 1))"

text \<open>
  Entry \<open>(i, j)\<close> of the matrix of \<open>levenshtein a b\<close>, by the recurrence of the inner loop
  on the indices.
\<close>

fun lev_entry :: "'a list \<Rightarrow> 'a list \<Rightarrow> nat \<Rightarrow> nat \<Rightarrow> nat" where
  "lev_entry a b 0 j = j"
| "lev_entry a b (Suc i) 0 = Suc i"
| "lev_entry a b (Suc i) (Suc j) =
     (if b ! i = a ! j then lev_entry a b i j
      else min (lev_entry a b i j + 1)
             (min (lev_entry a b (Suc i) j + 1) (lev_entry a b i (Suc j) + 1)))"

text \<open>Row \<open>i\<close> of that matrix, filled up to column \<open>k\<close>.\<close>

definition lev_row :: "'a list \<Rightarrow> 'a list \<Rightarrow> nat \<Rightarrow> nat \<Rightarrow> nat list" where
  "lev_row a b i k = map (lev_entry a b i) [0 ..< Suc k]"

section \<open>Specification-level notions for the extractor\<close>

text \<open>
  The four failure conditions of the extraction, in the words of the specification,
  and the condition that an environment and a project root lead to, if any.
\<close>

datatype failure = ConfigNotFound | ReadFailure | ParseFailure | TraversalFailure

definition failure_of :: "'ast environment \<Rightarrow> string \<Rightarrow> failure option" where
  "failure_of env projectRoot =
     (case find_config env projectRoot of
        None \<Rightarrow> Some ConfigNotFound
      | Some configPath \<Rightarrow>
          if configPath = [] then Some ConfigNotFound
          else
          (case readFileSync env configPath of
             Inl err \<Rightarrow> Some ReadFailure
           | Inr src \<Rightarrow>
               (case parse env src of
                  Inl err \<Rightarrow> Some ParseFailure
                | Inr ast \<Rightarrow>
                    (case traverse env ast of
                       Inl err \<Rightarrow> Some TraversalFailure
                     | Inr acc \<Rightarrow> None))))"

text \<open>What a caller can read off the message of an error.\<close>

definition message_class :: "string \<Rightarrow> failure option" where
  "message_class msg =
     (if msg = ''No tailwind config file found'' then Some ConfigNotFound
      else if startsWith msg ''Failed to read config file: '' then Some ReadFailure
      else if startsWith msg ''Failed to parse config file: '' then Some ParseFailure
      else if startsWith msg ''Failed to traverse AST: '' then Some TraversalFailure
      else None)"

text \<open>
  Two sample environments: one without any configuration file, one whose
  configuration file exists and is read but does not parse.
\<close>

definition env_missing :: "unit environment" where
  "env_missing =
     \<lparr> path_join = (\<lambda>root file. root @ ''/'' @ file),
       existsSync = (\<lambda>p. False),
       readFileSync = (\<lambda>p. Inl ''Error: ENOENT''),
       parse = (\<lambda>src. Inr ()),
       traverse = (\<lambda>ast. Inr \<lparr> extendColors = [], extendSpacing = [],
                                overrideColors = [], overrideSpacing = [] \<rparr>) \<rparr>"

definition env_garbled :: "unit environment" where
  "env_garbled =
     \<lparr> path_join = (\<lambda>root file. root @ ''/'' @ file),
       existsSync = (\<lambda>p. p = ''/proj/tailwind.config.js''),
       readFileSync = (\<lambda>p. Inr ''module.exports = {''),
       parse = (\<lambda>src. Inl ''SyntaxError: Unexpected token (1:18)''),
       traverse = (\<lambda>ast. Inr \<lparr> extendColors = [], extendSpacing = [],
                                overrideColors = [], overrideSpacing = [] \<rparr>) \<rparr>"

section \<open>Properties of objects\<close>

lemma map_of_insert_index:
  "k \<notin> fst ` set ob \<Longrightarrow> map_of (insert_index k v ob) = (map_of ob)(k \<mapsto> v)"
proof (induction ob)
  case Nil
  show ?case by simp
next
  case (Cons p ps)
  obtain k' v' where p: "p = (k', v')" by (cases p)
  from Cons.prems p have ne: "k' \<noteq> k" and notin: "k \<notin> fst ` set ps" by auto
  show ?case
    using Cons.IH [OF notin] ne by (auto simp: p fun_eq_iff)
qed

lemma map_of_snoc_fresh:
  "k \<notin> fst ` set ob \<Longrightarrow> map_of (ob @ [(k, v)]) = (map_of ob)(k \<mapsto> v)"
proof -
  assume "k \<notin> fst ` set ob"
  then have "map_of ob k = None" by (simp add: map_of_eq_None_iff)
  then show ?thesis by (auto simp: fun_eq_iff map_add_def split: option.splits)
qed

lemma map_of_obj_put: "map_of (obj_put ob k v) = (map_of ob)(k \<mapsto> v)"
proof (cases "k \<in> fst ` set ob")
  case True
  then show ?thesis by (simp add: obj_put_def update_conv')
next
  case False
  show ?thesis
  proof (cases "is_array_index k")
    case True
    with False show ?thesis by (simp add: obj_put_def map_of_insert_index)
  next
    case idx: False
    have "obj_put ob k v = ob @ [(k, v)]" using False idx by (simp add: obj_put_def)
    then show ?thesis using map_of_snoc_fresh [OF False] by simp
  qed
qed

lemma obj_assign_snoc:
  "obj_assign target (ps @ [(k, v)]) = obj_put (obj_assign target ps) k v"
  by (simp add: obj_assign_def)

lemma map_of_obj_assign:
  "distinct (map fst src) \<Longrightarrow> map_of (obj_assign target src) = map_of target ++ map_of src"
proof (induction src rule: rev_induct)
  case Nil
  show ?case by (simp add: obj_assign_def)
next
  case (snoc p ps)
  obtain k v where p: "p = (k, v)" by (cases p)
  from snoc.prems have d: "distinct (map fst ps)" and fresh: "k \<notin> fst ` set ps"
    by (auto simp: p)
  have "map_of (obj_assign target (ps @ [p])) = (map_of target ++ map_of ps)(k \<mapsto> v)"
    using snoc.IH [OF d] by (simp add: p obj_assign_snoc map_of_obj_put)
  also have "\<dots> = map_of target ++ (map_of ps)(k \<mapsto> v)"
    by simp
  also have "\<dots> = map_of target ++ map_of (ps @ [p])"
    unfolding p map_of_snoc_fresh [OF fresh] ..
  finally show ?case .
qed

lemma map_of_spread2:
  "distinct (map fst a) \<Longrightarrow> distinct (map fst b) \<Longrightarrow>
   map_of (spread2 a b) = map_of a ++ map_of b"
  by (simp add: spread2_def map_of_obj_assign)

lemma set_keys_insert_index:
  "set (map fst (insert_index k v ob)) = insert k (set (map fst ob))"
proof (induction ob)
  case Nil
  show ?case by simp
next
  case (Cons p ps)
  obtain k' v' where p: "p = (k', v')" by (cases p)
  show ?case using Cons.IH by (simp add: p insert_commute)
qed

lemma distinct_insert_index:
  "k \<notin> set (map fst ob) \<Longrightarrow> distinct (map fst ob) \<Longrightarrow>
   distinct (map fst (insert_index k v ob))"
proof (induction ob)
  case Nil
  show ?case by simp
next
  case (Cons p ps)
  obtain k' v' where p: "p = (k', v')" by (cases p)
  from Cons.prems p have a: "k \<notin> set (map fst ps)" and b: "distinct (map fst ps)"
    and c: "k' \<noteq> k" and d: "k' \<notin> set (map fst ps)" by auto
  have "k' \<notin> set (map fst (insert_index k v ps))"
    unfolding set_keys_insert_index using c d by simp
  with Cons.IH [OF a b] a b c d show ?case by (simp add: p)
qed

lemma js_ordered_Cons:
  "js_ordered (k # ks) = ((case ks of [] \<Rightarrow> True | k' # _ \<Rightarrow>
      is_array_index k' \<longrightarrow> is_array_index k \<and> dec_value k \<le> dec_value k') \<and> js_ordered ks)"
  by (cases ks) auto

lemma js_ordered_insert_index:
  "is_array_index k \<Longrightarrow> js_ordered (map fst ob) \<Longrightarrow> js_ordered (map fst (insert_index k v ob))"
proof (induction ob)
  case Nil
  show ?case by simp
next
  case (Cons p ps)
  obtain k' v' where p: "p = (k', v')" by (cases p)
  from Cons.prems have ord: "js_ordered (map fst ps)"
    by (simp add: p js_ordered_Cons)
  show ?case
  proof (cases "is_array_index k' \<and> dec_value k' \<le> dec_value k")
    case True
    have ih: "js_ordered (map fst (insert_index k v ps))"
      by (rule Cons.IH [OF Cons.prems(1) ord])
    show ?thesis
    proof (cases ps)
      case Nil
      with True Cons.prems show ?thesis by (simp add: p)
    next
      case (Cons q qs)
      obtain k'' v'' where q: "q = (k'', v'')" by (cases q)
      from Cons.prems True ih show ?thesis
        using \<open>js_ordered (map fst (p # ps))\<close>
        by (auto simp: p Cons q)
    qed
  next
    case False
    with Cons.prems show ?thesis by (auto simp: p)
  qed
qed


lemma keys_update_present:
  "k \<in> set (map fst ob) \<Longrightarrow> map fst (AList.update k v ob) = map fst ob"
  by (induction ob) auto

lemma js_ordered_snoc_other:
  "\<not> is_array_index k \<Longrightarrow> js_ordered ks \<Longrightarrow> js_ordered (ks @ [k])"
proof (induction ks rule: js_ordered.induct)
  case 1
  show ?case by simp
next
  case (2 k')
  then show ?case by simp
next
  case (3 k1 k2 ks)
  then show ?case by simp
qed

lemma wf_obj_put: "wf_obj ob \<Longrightarrow> wf_obj (obj_put ob k v)"
proof (cases "k \<in> set (map fst ob)")
  case True
  assume "wf_obj ob"
  with True show ?thesis
    by (simp add: wf_obj_def obj_put_def keys_update_present del: set_map) (simp add: image_iff)
next
  case False
  assume wf: "wf_obj ob"
  show ?thesis
  proof (cases "is_array_index k")
    case True
    with False wf show ?thesis
      using distinct_insert_index [of k ob v] js_ordered_insert_index [of k ob v]
      by (simp add: wf_obj_def obj_put_def)
  next
    case idx: False
    with False wf show ?thesis
      by (simp add: wf_obj_def obj_put_def js_ordered_snoc_other)
  qed
qed

lemma wf_obj_assign: "wf_obj target \<Longrightarrow> wf_obj (obj_assign target src)"
proof (induction src rule: rev_induct)
  case Nil
  then show ?case by (simp add: obj_assign_def)
next
  case (snoc p ps)
  obtain k v where p: "p = (k, v)" by (cases p)
  from snoc show ?case by (simp add: p obj_assign_snoc wf_obj_put)
qed

lemma wf_spread2: "wf_obj (spread2 a b)"
proof -
  have "wf_obj []" by (simp add: wf_obj_def)
  then have "wf_obj (obj_assign [] a)" by (rule wf_obj_assign)
  then show ?thesis unfolding spread2_def by (rule wf_obj_assign)
qed

lemma js_ordered_butlast: "js_ordered (ks @ [k]) \<Longrightarrow> js_ordered ks"
proof (induction ks rule: js_ordered.induct)
  case 1
  show ?case by simp
next
  case (2 k')
  show ?case by simp
next
  case (3 k1 k2 ks)
  then show ?case by simp
qed

lemma js_ordered_last_index:
  "js_ordered (ks @ [k]) \<Longrightarrow> is_array_index k \<Longrightarrow>
   \<forall>k' \<in> set ks. is_array_index k' \<and> dec_value k' \<le> dec_value k"
proof (induction ks rule: js_ordered.induct)
  case 1
  show ?case by simp
next
  case (2 k')
  then show ?case by simp
next
  case (3 k1 k2 ks)
  from 3 have a: "\<forall>k' \<in> set (k2 # ks). is_array_index k' \<and> dec_value k' \<le> dec_value k"
    by simp
  from "3.prems" have "is_array_index k2 \<longrightarrow> is_array_index k1 \<and> dec_value k1 \<le> dec_value k2"
    by simp
  with a show ?case by auto
qed

lemma insert_index_at_end:
  "\<forall>k' \<in> set (map fst ob). is_array_index k' \<and> dec_value k' \<le> dec_value k \<Longrightarrow>
   insert_index k v ob = ob @ [(k, v)]"
  by (induction ob) auto

lemma obj_put_fresh_last:
  assumes "wf_obj (ob @ [(k, v)])"
  shows "obj_put ob k v = ob @ [(k, v)]"
proof -
  from assms have fresh: "k \<notin> fst ` set ob" and ord: "js_ordered (map fst ob @ [k])"
    by (auto simp: wf_obj_def)
  show ?thesis
  proof (cases "is_array_index k")
    case True
    from js_ordered_last_index [OF ord True]
    have "insert_index k v ob = ob @ [(k, v)]" by (rule insert_index_at_end)
    with fresh True show ?thesis by (simp add: obj_put_def)
  next
    case False
    with fresh show ?thesis by (simp add: obj_put_def)
  qed
qed

lemma wf_obj_butlast: "wf_obj (ob @ [p]) \<Longrightarrow> wf_obj ob"
  by (auto simp: wf_obj_def dest: js_ordered_butlast)

lemma obj_assign_empty_id: "wf_obj ob \<Longrightarrow> obj_assign [] ob = ob"
proof (induction ob rule: rev_induct)
  case Nil
  show ?case by (simp add: obj_assign_def)
next
  case (snoc p ps)
  obtain k v where p: "p = (k, v)" by (cases p)
  from snoc.prems have "wf_obj ps" by (rule wf_obj_butlast)
  with snoc.IH have "obj_assign [] ps = ps" by simp
  then show ?case
    using obj_put_fresh_last [of ps k v] snoc.prems by (simp add: p obj_assign_snoc)
qed

lemma spread2_empty: "wf_obj a \<Longrightarrow> spread2 a [] = a"
  by (simp add: spread2_def obj_assign_empty_id) (simp add: obj_assign_def)

section \<open>TruthResolver: the merge policy\<close>

text \<open>
  Claim C1. For every extracted truth, \<open>resolveTruth\<close> computes each token family from
  the buckets of that family alone: the baseline is the override bucket when that is
  not empty and the default token set otherwise; the extend bucket is overlaid on the
  baseline, and a key of the extend bucket (in particular one that the baseline has
  too) resolves to its extend value. The result is again a pair of well-formed objects.
\<close>

theorem resolveTruth_merge:
  assumes "wf_families defaultTheme" and "wf_truth userTruth"
  shows "map_of (colors (resolveTruth defaultTheme userTruth)) =
           map_of (baseline (colors (override_bucket userTruth)) (colors defaultTheme))
             ++ map_of (colors (extend_bucket userTruth))
       \<and> map_of (spacing (resolveTruth defaultTheme userTruth)) =
           map_of (baseline (spacing (override_bucket userTruth)) (spacing defaultTheme))
             ++ map_of (spacing (extend_bucket userTruth))
       \<and> (\<forall>k v. map_of (colors (extend_bucket userTruth)) k = Some v
             \<longrightarrow> map_of (colors (resolveTruth defaultTheme userTruth)) k = Some v)
       \<and> (\<forall>k v. map_of (spacing (extend_bucket userTruth)) k = Some v
             \<longrightarrow> map_of (spacing (resolveTruth defaultTheme userTruth)) k = Some v)
       \<and> wf_families (resolveTruth defaultTheme userTruth)"
proof -
  from assms have d:
    "distinct (map fst (colors defaultTheme))" "distinct (map fst (spacing defaultTheme))"
    "distinct (map fst (colors (override_bucket userTruth)))"
    "distinct (map fst (spacing (override_bucket userTruth)))"
    "distinct (map fst (colors (extend_bucket userTruth)))"
    "distinct (map fst (spacing (extend_bucket userTruth)))"
    by (simp_all add: wf_families_def wf_truth_def wf_obj_def)
  have c: "map_of (colors (resolveTruth defaultTheme userTruth)) =
           map_of (baseline (colors (override_bucket userTruth)) (colors defaultTheme))
             ++ map_of (colors (extend_bucket userTruth))"
    using d by (simp add: resolveTruth_def baseline_def Object_keys_def map_of_spread2)
  have s: "map_of (spacing (resolveTruth defaultTheme userTruth)) =
           map_of (baseline (spacing (override_bucket userTruth)) (spacing defaultTheme))
             ++ map_of (spacing (extend_bucket userTruth))"
    using d by (simp add: resolveTruth_def baseline_def Object_keys_def map_of_spread2)
  have ce: "\<forall>k v. map_of (colors (extend_bucket userTruth)) k = Some v
           \<longrightarrow> map_of (colors (resolveTruth defaultTheme userTruth)) k = Some v"
    unfolding c by (simp add: map_add_Some_iff)
  have se: "\<forall>k v. map_of (spacing (extend_bucket userTruth)) k = Some v
           \<longrightarrow> map_of (spacing (resolveTruth defaultTheme userTruth)) k = Some v"
    unfolding s by (simp add: map_add_Some_iff)
  have w: "wf_families (resolveTruth defaultTheme userTruth)"
    by (simp add: wf_families_def resolveTruth_def wf_spread2)
  from c s ce se w show ?thesis by blast
qed

text \<open>
  The theorem at the sample inputs: colors has no override, so the defaults are the
  baseline and \<open>red\<close> takes its extend value; spacing has an override, so the defaults
  are dropped, and \<open>4\<close> takes its extend value.
\<close>

theorem resolveTruth_merge_witness:
  "wf_families sample_defaults \<and> wf_truth sample_truth
   \<and> map_of (colors (resolveTruth sample_defaults sample_truth)) ''red'' = Some ''#ff0000''
   \<and> map_of (colors (resolveTruth sample_defaults sample_truth)) ''blue'' = Some ''#3b82f6''
   \<and> map_of (spacing (resolveTruth sample_defaults sample_truth)) ''4'' = Some ''18px''
   \<and> map_of (spacing (resolveTruth sample_defaults sample_truth)) ''8'' = Some ''32px''
   \<and> map_of (spacing (resolveTruth sample_defaults sample_truth)) ''px'' = None"
proof -
  have h1: "wf_families sample_defaults"
    by (simp add: wf_families_def wf_obj_def sample_defaults_def is_array_index_def
        is_digit_def dec_value_def)
  have h2: "wf_truth sample_truth"
    by (simp add: wf_truth_def wf_families_def wf_obj_def sample_truth_def
        is_array_index_def is_digit_def dec_value_def)
  from resolveTruth_merge [OF h1 h2] h1 h2 show ?thesis
    by (simp add: baseline_def sample_defaults_def sample_truth_def)
qed

lemma resolveTruth_sample:
  "resolveTruth sample_defaults sample_truth =
     \<lparr> colors = [(''red'', ''#ff0000''), (''blue'', ''#3b82f6''), (''brand'', ''#123456'')],
       spacing = [(''2'', ''0.5rem''), (''4'', ''18px''), (''8'', ''32px'')] \<rparr>"
  by (simp add: resolveTruth_def sample_defaults_def sample_truth_def Object_keys_def
      spread2_def obj_assign_def obj_put_def is_array_index_def is_digit_def dec_value_def)

text \<open>
  Claim C9. Resolving an extracted truth whose override and extend buckets are all
  empty returns the built-in default token sets, unmodified.
\<close>

theorem resolveTruth_round_trip:
  assumes "wf_families defaultTheme"
  shows "resolveTruth defaultTheme empty_truth = defaultTheme"
  using assms
  by (simp add: resolveTruth_def empty_truth_def Object_keys_def wf_families_def spread2_empty)

theorem resolveTruth_round_trip_witness:
  "wf_families sample_defaults \<and> resolveTruth sample_defaults empty_truth = sample_defaults"
proof -
  have h: "wf_families sample_defaults"
    by (simp add: wf_families_def wf_obj_def sample_defaults_def is_array_index_def
        is_digit_def dec_value_def)
  from resolveTruth_round_trip [OF h] h show ?thesis by simp
qed

section \<open>PrefixMatcher: the longest match\<close>

lemma nested_loops_flat:
  "foldl (\<lambda>st (category, prefixes). foldl (try_prefix cn category) st prefixes) st table =
   foldl (\<lambda>st (category, prefix). try_prefix cn category st prefix) st (table_pairs table)"
proof (induction table arbitrary: st)
  case Nil
  show ?case by (simp add: table_pairs_def)
next
  case (Cons e es)
  obtain category prefixes where e: "e = (category, prefixes)" by (cases e)
  have inner: "foldl (try_prefix cn category) st prefixes =
      foldl (\<lambda>st (category, prefix). try_prefix cn category st prefix) st
        (map (Pair category) prefixes)" for st
    by (induction prefixes arbitrary: st) auto
  have "table_pairs (e # es) = map (Pair category) prefixes @ table_pairs es"
    by (simp add: table_pairs_def e)
  then show ?case using Cons.IH by (simp add: e inner)
qed

lemma try_prefix_eq:
  "try_prefix cn category (m, l) prefix =
     (if prefix_matches cn prefix \<and> l < length prefix
      then (Some (category, prefix), length prefix) else (m, l))"
  by (simp add: try_prefix_def prefix_matches_def)

lemma first_longest_keep:
  assumes "first_longest cn ps i"
    and "\<not> (prefix_matches cn (snd q) \<and> length (snd (ps ! i)) < length (snd q))"
  shows "first_longest cn (ps @ [q]) i"
proof -
  from assms(1) have i: "i < length ps" by (simp add: first_longest_def)
  show ?thesis
    unfolding first_longest_def
  proof (intro conjI allI impI)
    show "i < length (ps @ [q])" using i by simp
    show "prefix_matches cn (snd ((ps @ [q]) ! i))"
      using assms(1) i by (simp add: first_longest_def nth_append)
  next
    fix j assume j: "j < length (ps @ [q])" and m: "prefix_matches cn (snd ((ps @ [q]) ! j))"
    show "length (snd ((ps @ [q]) ! j)) \<le> length (snd ((ps @ [q]) ! i))"
    proof (cases "j < length ps")
      case True
      with assms(1) m i show ?thesis by (simp add: first_longest_def nth_append)
    next
      case False
      with j have "j = length ps" by simp
      with m assms(2) i show ?thesis by (simp add: nth_append)
    qed
    assume e: "length (snd ((ps @ [q]) ! j)) = length (snd ((ps @ [q]) ! i))"
    show "i \<le> j"
    proof (cases "j < length ps")
      case True
      with assms(1) m i e show ?thesis by (simp add: first_longest_def nth_append)
    next
      case False
      with i show ?thesis by simp
    qed
  qed
qed

lemma first_longest_new:
  assumes "prefix_matches cn (snd q)"
    and "\<forall>j < length ps. prefix_matches cn (snd (ps ! j)) \<longrightarrow> length (snd (ps ! j)) < length (snd q)"
  shows "first_longest cn (ps @ [q]) (length ps)"
  unfolding first_longest_def
proof (intro conjI allI impI)
  show "length ps < length (ps @ [q])" by simp
  show "prefix_matches cn (snd ((ps @ [q]) ! length ps))" using assms(1) by simp
next
  fix j assume j: "j < length (ps @ [q])" and m: "prefix_matches cn (snd ((ps @ [q]) ! j))"
  show "length (snd ((ps @ [q]) ! j)) \<le> length (snd ((ps @ [q]) ! length ps))"
  proof (cases "j < length ps")
    case True
    with assms(2) m show ?thesis by (simp add: nth_append less_imp_le)
  next
    case False
    with j have "j = length ps" by simp
    then show ?thesis by simp
  qed
  assume e: "length (snd ((ps @ [q]) ! j)) = length (snd ((ps @ [q]) ! length ps))"
  show "length ps \<le> j"
  proof (cases "j < length ps")
    case True
    with assms(2) m e show ?thesis by (auto simp: nth_append)
  next
    case False
    then show ?thesis by simp
  qed
qed

lemma loop_inv_fold:
  assumes "\<forall>q \<in> set ps. snd q \<noteq> []"
  shows "loop_inv cn ps (foldl (\<lambda>st (category, prefix). try_prefix cn category st prefix) (None, 0) ps)"
  using assms
proof (induction ps rule: rev_induct)
  case Nil
  show ?case by (simp add: loop_inv_def)
next
  case (snoc q ps)
  obtain c p where q: "q = (c, p)" by (cases q)
  define st where "st = foldl (\<lambda>st (category, prefix). try_prefix cn category st prefix) (None, 0) ps"
  obtain m l where st: "st = (m, l)" by (cases st)
  from snoc have inv: "loop_inv cn ps (m, l)" and pne: "p \<noteq> []"
    by (simp_all add: st_def [symmetric] st q)
  have step: "foldl (\<lambda>st (category, prefix). try_prefix cn category st prefix) (None, 0) (ps @ [q])
      = (if prefix_matches cn p \<and> l < length p then (Some (c, p), length p) else (m, l))"
    by (simp add: st_def [symmetric] st q try_prefix_eq)
  show ?case
  proof (cases "prefix_matches cn p \<and> l < length p")
    case True
    have "\<forall>j < length ps. prefix_matches cn (snd (ps ! j)) \<longrightarrow> length (snd (ps ! j)) < length (snd q)"
    proof (cases m)
      case None
      with inv show ?thesis by (simp add: loop_inv_def)
    next
      case (Some x)
      with inv obtain i where fl: "first_longest cn ps i" and l: "l = length (snd (ps ! i))"
        by (auto simp: loop_inv_def)
      show ?thesis
      proof (intro allI impI)
        fix j assume "j < length ps" "prefix_matches cn (snd (ps ! j))"
        with fl have "length (snd (ps ! j)) \<le> length (snd (ps ! i))"
          by (simp add: first_longest_def)
        with True l show "length (snd (ps ! j)) < length (snd q)" by (simp add: q)
      qed
    qed
    with True have "first_longest cn (ps @ [q]) (length ps)"
      by (intro first_longest_new) (simp_all add: q)
    moreover have "(ps @ [q]) ! length ps = (c, p)" by (simp add: q)
    moreover from True have
      "foldl (\<lambda>st (category, prefix). try_prefix cn category st prefix) (None, 0) (ps @ [q])
        = (Some (c, p), length p)" unfolding step by simp
    ultimately show ?thesis by (auto simp: loop_inv_def)
  next
    case False
    then have res:
      "foldl (\<lambda>st (category, prefix). try_prefix cn category st prefix) (None, 0) (ps @ [q])
        = (m, l)" unfolding step by simp
    show ?thesis
    proof (cases m)
      case None
      with inv have l0: "l = 0" and nom: "\<forall>j < length ps. \<not> prefix_matches cn (snd (ps ! j))"
        by (simp_all add: loop_inv_def)
      from False l0 pne have "\<not> prefix_matches cn p" by simp
      with nom have "\<forall>j < length (ps @ [q]). \<not> prefix_matches cn (snd ((ps @ [q]) ! j))"
        by (auto simp: nth_append q less_Suc_eq)
      with None l0 show ?thesis unfolding res by (simp add: loop_inv_def)
    next
      case (Some x)
      with inv obtain i where fl: "first_longest cn ps i" and x: "ps ! i = x"
        and l: "l = length (snd x)"
        by (auto simp: loop_inv_def)
      from False l x have "\<not> (prefix_matches cn (snd q) \<and> length (snd (ps ! i)) < length (snd q))"
        by (simp add: q)
      from first_longest_keep [OF fl this] have "first_longest cn (ps @ [q]) i" .
      moreover from fl have "(ps @ [q]) ! i = x" using x by (simp add: first_longest_def nth_append)
      ultimately show ?thesis using Some l unfolding res by (auto simp: loop_inv_def)
    qed
  qed
qed


lemma first_longest_unique:
  assumes "first_longest cn ps i" and "first_longest cn ps i'"
  shows "i = i'"
proof -
  from assms have a: "length (snd (ps ! i')) \<le> length (snd (ps ! i))"
    and b: "length (snd (ps ! i)) \<le> length (snd (ps ! i'))"
    by (simp_all add: first_longest_def)
  then have e: "length (snd (ps ! i)) = length (snd (ps ! i'))" by simp
  from assms e have "i \<le> i'" and "i' \<le> i" by (simp_all add: first_longest_def)
  then show ?thesis by simp
qed

lemma SCOPED_PREFIXES_nonempty: "\<forall>q \<in> set (table_pairs SCOPED_PREFIXES). snd q \<noteq> []"
  by code_simp

lemma findLongestMatch_inv:
  "\<exists>l. loop_inv className (table_pairs SCOPED_PREFIXES) (findLongestMatch className, l)"
proof -
  define st where "st = foldl (\<lambda>st (category, prefix). try_prefix className category st prefix)
      (None, 0) (table_pairs SCOPED_PREFIXES)"
  have "loop_inv className (table_pairs SCOPED_PREFIXES) st"
    unfolding st_def by (rule loop_inv_fold [OF SCOPED_PREFIXES_nonempty])
  moreover have "findLongestMatch className = fst st"
    by (simp add: findLongestMatch_def longest_in_def nested_loops_flat st_def)
  ultimately have "loop_inv className (table_pairs SCOPED_PREFIXES) (findLongestMatch className, snd st)"
    by simp
  then show ?thesis ..
qed

text \<open>
  Claim C6. For every token, \<open>findLongestMatch\<close> returns no match exactly when no pair
  of the prefix table matches (equality for a prefix without the trailing separator,
  \<open>startsWith\<close> for one with it), and otherwise returns the first longest match: the
  matching pair whose prefix is longest, the earliest registered one among those of
  that length. For \<open>border-blue-500\<close> it is the prefix \<open>border-\<close> of category \<open>colors\<close>,
  with remainder \<open>blue-500\<close>.
\<close>

theorem findLongestMatch_first_longest:
  "(findLongestMatch className = None \<longleftrightarrow>
      (\<forall>j < length (table_pairs SCOPED_PREFIXES).
          \<not> prefix_matches className (snd (table_pairs SCOPED_PREFIXES ! j))))
   \<and> (\<forall>x. findLongestMatch className = Some x \<longleftrightarrow>
          (\<exists>i. first_longest className (table_pairs SCOPED_PREFIXES) i
             \<and> table_pairs SCOPED_PREFIXES ! i = x))
   \<and> findLongestMatch ''border-blue-500'' = Some (''colors'', ''border-'')
   \<and> extractToken ''border-blue-500'' ''border-'' = ''blue-500''"
proof -
  let ?ps = "table_pairs SCOPED_PREFIXES"
  obtain l where inv: "loop_inv className ?ps (findLongestMatch className, l)"
    using findLongestMatch_inv by blast
  have none: "findLongestMatch className = None \<longleftrightarrow>
      (\<forall>j < length ?ps. \<not> prefix_matches className (snd (?ps ! j)))"
  proof
    assume "findLongestMatch className = None"
    with inv show "\<forall>j < length ?ps. \<not> prefix_matches className (snd (?ps ! j))"
      by (simp add: loop_inv_def)
  next
    assume nom: "\<forall>j < length ?ps. \<not> prefix_matches className (snd (?ps ! j))"
    show "findLongestMatch className = None"
    proof (cases "findLongestMatch className")
      case None
      then show ?thesis .
    next
      case (Some x)
      with inv obtain i where "first_longest className ?ps i" by (auto simp: loop_inv_def)
      then have "i < length ?ps" "prefix_matches className (snd (?ps ! i))"
        by (simp_all add: first_longest_def)
      with nom show ?thesis by blast
    qed
  qed
  have some: "findLongestMatch className = Some x \<longleftrightarrow>
      (\<exists>i. first_longest className ?ps i \<and> ?ps ! i = x)" for x
  proof
    assume "findLongestMatch className = Some x"
    with inv show "\<exists>i. first_longest className ?ps i \<and> ?ps ! i = x"
      by (simp add: loop_inv_def)
  next
    assume "\<exists>i. first_longest className ?ps i \<and> ?ps ! i = x"
    then obtain i where fl: "first_longest className ?ps i" and x: "?ps ! i = x" by blast
    show "findLongestMatch className = Some x"
    proof (cases "findLongestMatch className")
      case None
      from fl have "i < length ?ps" "prefix_matches className (snd (?ps ! i))"
        by (simp_all add: first_longest_def)
      with none None show ?thesis by blast
    next
      case (Some y)
      with inv obtain i' where "first_longest className ?ps i'" and y: "?ps ! i' = y"
        by (auto simp: loop_inv_def)
      with fl have "i = i'" by (simp add: first_longest_unique)
      with x y Some show ?thesis by simp
    qed
  qed
  have ex: "findLongestMatch ''border-blue-500'' = Some (''colors'', ''border-'')"
    by code_simp
  have tok: "extractToken ''border-blue-500'' ''border-'' = ''blue-500''"
    by (simp add: extractToken_def endsWith_dash_def)
  from none some ex tok show ?thesis by blast
qed

theorem findLongestMatch_first_longest_witness:
  "(\<exists>i. first_longest ''border-blue-500'' (table_pairs SCOPED_PREFIXES) i
         \<and> table_pairs SCOPED_PREFIXES ! i = (''colors'', ''border-''))
   \<and> findLongestMatch ''text-lg'' = Some (''colors'', ''text-'')
   \<and> findLongestMatch ''border-t-2'' = Some (''layout'', ''border-t-'')
   \<and> findLongestMatch ''unknown'' = None"
proof -
  have a: "\<exists>i. first_longest ''border-blue-500'' (table_pairs SCOPED_PREFIXES) i
         \<and> table_pairs SCOPED_PREFIXES ! i = (''colors'', ''border-'')"
    using findLongestMatch_first_longest [of "''border-blue-500''"] by blast
  have b: "findLongestMatch ''text-lg'' = Some (''colors'', ''text-'')" by code_simp
  have c: "findLongestMatch ''border-t-2'' = Some (''layout'', ''border-t-'')" by code_simp
  have d: "findLongestMatch ''unknown'' = None" by code_simp
  from a b c d show ?thesis by blast
qed

section \<open>ClassTokenizer and CategoryValidator: the validation pass\<close>

lemma check_token_rule:
  assumes "P (push_valid c st) (push_valid c st')"
    and "\<And>m. P (push_error m st) (push_error m st')"
  shows "P (check_token c p tok known pool st) (check_token c p tok known pool st')"
  using assms by (simp add: check_token_def)

lemma validate_matched_rule:
  assumes v: "P (push_valid c st) (push_valid c st')"
    and e: "\<And>m. P (push_error m st) (push_error m st')"
  shows "P (validate_matched t st c category prefix) (validate_matched t st' c category prefix)"
proof -
  note ct = check_token_rule [of P c st st', OF v e]
  have ifr: "P (if Q then a else b) (if Q then a' else b')"
    if "Q \<Longrightarrow> P a a'" and "\<not> Q \<Longrightarrow> P b b'" for Q a a' b b'
    using that by simp
  show ?thesis
    unfolding validate_matched_def Let_def by (intro ifr v e ct)
qed

lemma validate_class_rule:
  assumes v: "P (push_valid c st) (push_valid c st')"
    and e: "\<And>m. P (push_error m st) (push_error m st')"
  shows "P (validate_class t st c) (validate_class t st' c)"
proof (cases "CHR ''['' \<in> set c \<and> CHR '']'' \<in> set c")
  case True
  then show ?thesis by (simp only: validate_class_def if_True e simp_thms)
next
  case False
  show ?thesis
  proof (cases "findLongestMatch c")
    case None
    with False show ?thesis by (simp only: validate_class_def if_False option.case v)
  next
    case (Some x)
    obtain category prefix where x: "x = (category, prefix)" by (cases x)
    show ?thesis
      unfolding validate_class_def Some x option.case prod.case
      using False validate_matched_rule [of P c st st', OF v e] by (simp only: if_False)
  qed
qed

lemma validate_class_verdict:
  "validate_class t (vs, es, ok) c =
     (if rejects t c then (vs, es @ [rejection_message t c], False) else (vs @ [c], es, ok))"
proof -
  define P :: "loop_state \<Rightarrow> loop_state \<Rightarrow> bool" where
    "P = (\<lambda>r r0. r = (if \<not> snd (snd r0) then (vs, es @ [last (fst (snd r0))], False)
                           else (vs @ [c], es, ok)))"
  have "P (validate_class t (vs, es, ok) c) (validate_class t ([], [], True) c)"
  proof (rule validate_class_rule)
    show "P (push_valid c (vs, es, ok)) (push_valid c ([], [], True))"
      by (simp add: P_def push_valid_def)
    show "P (push_error m (vs, es, ok)) (push_error m ([], [], True))" for m
      by (simp add: P_def push_error_def)
  qed
  then show ?thesis
    unfolding P_def rejects_def rejection_message_def by simp
qed

lemma validate_loop:
  "foldl (validate_class t) (vs, es, ok) cs =
     (vs @ filter (\<lambda>c. \<not> rejects t c) cs,
      es @ map (rejection_message t) (filter (rejects t) cs),
      ok \<and> (\<forall>c \<in> set cs. \<not> rejects t c))"
proof (induction cs arbitrary: vs es ok)
  case Nil
  show ?case by simp
next
  case (Cons c cs)
  show ?case by (auto simp: validate_class_verdict Cons.IH)
qed

lemma validate_classes_eq:
  "validate_classes t cs =
     (filter (\<lambda>c. \<not> rejects t c) cs,
      map (rejection_message t) (filter (rejects t) cs),
      \<forall>c \<in> set cs. \<not> rejects t c)"
  by (simp add: validate_classes_def validate_loop)

lemma validateCode_eq:
  "validateCode src t =
     \<lparr> isValid = (\<forall>c \<in> set (extractClasses src). \<not> rejects t c),
       code = join '' '' (filter (\<lambda>c. \<not> rejects t c) (extractClasses src)),
       errors = map (rejection_message t) (filter (rejects t) (extractClasses src)) \<rparr>"
  by (simp add: validateCode_def validate_classes_eq)


lemma rejects_arbitrary:
  assumes "CHR ''['' \<in> set c" and "CHR '']'' \<in> set c"
  shows "rejects t c" and "rejection_message t c = arbitrary_message c"
  using assms by (simp_all add: rejects_def rejection_message_def validate_class_def push_error_def)

lemma validate_class_matched:
  assumes "\<not> (CHR ''['' \<in> set c \<and> CHR '']'' \<in> set c)"
    and "findLongestMatch c = Some (category, prefix)"
  shows "validate_class t st c = validate_matched t st c category prefix"
  using assms by (auto simp: validate_class_def)

lemma validate_class_unmatched:
  assumes "\<not> (CHR ''['' \<in> set c \<and> CHR '']'' \<in> set c)"
    and "findLongestMatch c = None"
  shows "validate_class t st c = push_valid c st"
  using assms by (auto simp: validate_class_def)

lemma check_token_empty: "check_token c p [] known pool st = push_valid c st"
  by (simp add: check_token_def)

lemma validate_matched_empty_token:
  assumes "extractToken c prefix = []"
  shows "validate_matched t st c category prefix = push_valid c st"
proof -
  define P where "P = (\<lambda>r. r = push_valid c st)"
  have ifr: "P (if Q then a else b)" if "Q \<Longrightarrow> P a" and "\<not> Q \<Longrightarrow> P b" for Q a b
    using that by simp
  have v: "P (push_valid c st)" by (simp add: P_def)
  have ct: "P (check_token c p [] known pool st)" for p known pool
    by (simp add: P_def check_token_empty)
  have "P (validate_matched t st c category prefix)"
    unfolding validate_matched_def Let_def assms by (intro ifr v ct)
  then show ?thesis by (simp add: P_def)
qed

lemma not_rejects_iff: "\<not> rejects t c \<longleftrightarrow> validate_class t ([], [], True) c = ([c], [], True)"
  using validate_class_verdict [of t "[]" "[]" True c] by auto

lemma validate_matched_text:
  "validate_matched t st c ''colors'' ''text-'' =
     (if extractToken c ''text-'' \<in> set TEXT_SIZES then push_valid c st
      else check_token c ''text-'' (extractToken c ''text-'')
             (truthy_at (colors t) (extractToken c ''text-'')) (Object_keys (colors t)) st)"
  by (simp only: validate_matched_def Let_def simp_thms if_True)

lemma validate_matched_border:
  "validate_matched t st c ''colors'' ''border-'' =
     (if extractToken c ''border-'' \<in> set BORDER_WIDTHS then push_valid c st
      else check_token c ''border-'' (extractToken c ''border-'')
             (truthy_at (colors t) (extractToken c ''border-'')) (Object_keys (colors t)) st)"
proof -
  have ne: "(''border-'' = ''text-'') = False" by simp
  show ?thesis
    by (simp only: validate_matched_def Let_def simp_thms if_True if_False ne)
qed

lemma validate_matched_color:
  assumes "prefix \<noteq> ''text-''" and "prefix \<noteq> ''border-''"
  shows "validate_matched t st c ''colors'' prefix =
     check_token c prefix (extractToken c prefix)
       (truthy_at (colors t) (extractToken c prefix)) (Object_keys (colors t)) st"
  using assms by (simp only: validate_matched_def Let_def simp_thms if_True if_False)

lemma validate_matched_spacing:
  "validate_matched t st c ''spacing'' prefix =
     check_token c prefix (extractToken c prefix)
       (truthy_at (spacing t) (extractToken c prefix)) (Object_keys (spacing t)) st"
proof -
  have ne: "(''spacing'' = ''colors'') = False" by simp
  show ?thesis
    by (simp only: validate_matched_def Let_def simp_thms if_True if_False ne)
qed

lemma rejects_check_token:
  assumes "validate_class t ([], [], True) c = check_token c p tok known pool ([], [], True)"
  shows "rejects t c \<longleftrightarrow> tok \<noteq> [] \<and> \<not> known"
  using assms by (simp add: rejects_def check_token_def push_valid_def push_error_def)

lemma split_ws_space_free:
  "list_all (\<lambda>ch. \<not> is_space ch) cur \<Longrightarrow> x \<in> set (split_ws cur b s) \<Longrightarrow>
   list_all (\<lambda>ch. \<not> is_space ch) x"
proof (induction s arbitrary: cur b)
  case Nil
  then show ?case by simp
next
  case (Cons a s)
  show ?case
  proof (cases "is_space a")
    case True
    with Cons.prems have "x = cur \<or> x \<in> set (split_ws cur True s) \<or> x \<in> set (split_ws [] True s)"
      by (auto split: if_splits)
    with Cons.prems(1) Cons.IH [of cur True] Cons.IH [of "[]" True] show ?thesis by auto
  next
    case False
    with Cons.prems have "x \<in> set (split_ws (cur @ [a]) False s)" by simp
    with Cons.prems(1) False Cons.IH [of "cur @ [a]" False] show ?thesis by simp
  qed
qed

lemma class_tokens_ok: "\<forall>v \<in> set (class_tokens s). token_ok v"
  using split_ws_space_free [of "[]" _ False s] by (auto simp: class_tokens_def token_ok_def)

lemma scan_classes_ok: "\<forall>v \<in> set (scan_classes s). token_ok v"
proof (induction s rule: scan_classes.induct)
  case 1
  show ?case by simp
next
  case (2 c cs)
  show ?case
  proof (cases "match_here (c # cs)")
    case None
    with 2 show ?thesis by simp
  next
    case (Some m)
    obtain classString rest where m: "m = (classString, rest)" by (cases m)
    show ?thesis
      using Some m "2.IH"(2) [OF Some [unfolded m] refl] class_tokens_ok [of classString]
      by auto
  qed
qed

lemma extractClasses_ok: "v \<in> set (extractClasses src) \<Longrightarrow> token_ok v"
  using scan_classes_ok by (simp add: extractClasses_def)

lemma split_ws_word:
  "list_all (\<lambda>ch. \<not> is_space ch) v \<Longrightarrow> v \<noteq> [] \<Longrightarrow>
   split_ws cur b (v @ rest) = split_ws (cur @ v) False rest"
proof (induction v arbitrary: cur b)
  case Nil
  then show ?case by simp
next
  case (Cons ch v)
  show ?case
  proof (cases "v = []")
    case True
    with Cons.prems show ?thesis by simp
  next
    case False
    with Cons.prems Cons.IH [of "cur @ [ch]" False] show ?thesis by simp
  qed
qed

lemma split_ws_flag:
  "filter (\<lambda>t. t \<noteq> []) (split_ws [] True s) = filter (\<lambda>t. t \<noteq> []) (split_ws [] False s)"
  by (cases s) auto

lemma class_tokens_word:
  assumes "token_ok v"
  shows "class_tokens v = [v]"
    and "class_tokens (v @ CHR '' '' # rest) = v # class_tokens rest"
proof -
  from assms have sf: "list_all (\<lambda>ch. \<not> is_space ch) v" and ne: "v \<noteq> []"
    by (simp_all add: token_ok_def)
  have sp: "is_space CHR '' ''" by (simp add: is_space_def)
  show "class_tokens v = [v]"
    using split_ws_word [OF sf ne, of "[]" False "[]"] ne by (simp add: class_tokens_def)
  have "split_ws [] False (v @ CHR '' '' # rest) = v # split_ws [] True rest"
    using split_ws_word [OF sf ne, of "[]" False "CHR '' '' # rest"] sp by simp
  then show "class_tokens (v @ CHR '' '' # rest) = v # class_tokens rest"
    using ne split_ws_flag [of rest] by (simp add: class_tokens_def)
qed

lemma class_tokens_join:
  "list_all token_ok vs \<Longrightarrow> class_tokens (join '' '' vs) = vs"
proof (induction "'' ''" vs rule: join.induct)
  case 1
  show ?case by (simp add: class_tokens_def)
next
  case (2 x)
  then show ?case by (simp add: class_tokens_word)
next
  case (3 x y zs)
  then show ?case by (simp add: class_tokens_word)
qed

lemma code_tokens:
  "class_tokens (code (validateCode src t)) = filter (\<lambda>c. \<not> rejects t c) (extractClasses src)"
proof -
  have "list_all token_ok (filter (\<lambda>c. \<not> rejects t c) (extractClasses src))"
    by (auto simp: list_all_iff extractClasses_ok)
  then show ?thesis by (simp add: validateCode_eq class_tokens_join)
qed

lemma strict_prefixes_match:
  "list_all (\<lambda>p. \<not> (CHR ''['' \<in> set p \<and> CHR '']'' \<in> set p) \<and>
              (findLongestMatch p = Some (''colors'', p) \<or> findLongestMatch p = Some (''spacing'', p)) \<and>
              extractToken p p = [])
     strict_prefixes"
  by code_simp

lemma sample_markup_classes:
  "extractClasses sample_markup = [''bg-red'', ''text-giant'', ''p-4'']"
  by code_simp

text \<open>
  Classes are read from \<open>class\<close> and \<open>className\<close> attributes only: the same three
  classes outside an attribute yield no token.
\<close>

lemma bare_string_classes: "extractClasses ''bg-red text-giant p-4'' = []"
  by code_simp

lemma sample_matches:
  "findLongestMatch ''bg-red'' = Some (''colors'', ''bg-'')"
  "findLongestMatch ''text-giant'' = Some (''colors'', ''text-'')"
  "findLongestMatch ''p-4'' = Some (''spacing'', ''p-'')"
  by code_simp+

lemma sample_verdicts:
  assumes "truthy_at (colors t) ''red''" and "truthy_at (spacing t) ''4''"
    and "\<not> truthy_at (colors t) ''giant''"
  shows "\<not> rejects t ''bg-red''" and "rejects t ''text-giant''" and "\<not> rejects t ''p-4''"
proof -
  have a: "validate_class t ([], [], True) ''bg-red'' =
      check_token ''bg-red'' ''bg-'' ''red'' (truthy_at (colors t) ''red'')
        (Object_keys (colors t)) ([], [], True)"
    by (simp add: validate_class_matched [OF _ sample_matches(1)] validate_matched_color
        extractToken_def endsWith_dash_def)
  have b: "validate_class t ([], [], True) ''text-giant'' =
      check_token ''text-giant'' ''text-'' ''giant'' (truthy_at (colors t) ''giant'')
        (Object_keys (colors t)) ([], [], True)"
    by (simp add: validate_class_matched [OF _ sample_matches(2)] validate_matched_text
        extractToken_def endsWith_dash_def TEXT_SIZES_def)
  have c: "validate_class t ([], [], True) ''p-4'' =
      check_token ''p-4'' ''p-'' ''4'' (truthy_at (spacing t) ''4'')
        (Object_keys (spacing t)) ([], [], True)"
    by (simp add: validate_class_matched [OF _ sample_matches(3)] validate_matched_spacing
        extractToken_def endsWith_dash_def)
  show "\<not> rejects t ''bg-red''" using assms by (simp add: rejects_check_token [OF a])
  show "rejects t ''text-giant''" using assms by (simp add: rejects_check_token [OF b])
  show "\<not> rejects t ''p-4''" using assms by (simp add: rejects_check_token [OF c])
qed

text \<open>
  Claim C3. \<open>validateCode\<close> processes every extracted token in one pass, without
  stopping at a rejection: \<open>isValid\<close> holds exactly when no extracted token is rejected,
  \<open>errors\<close> has one entry for each rejected token, in order, and \<open>code\<close> is the accepted
  and pass-through tokens joined by single spaces in their original order. In
  particular, for a source whose class attribute yields the tokens \<open>bg-red\<close>,
  \<open>text-giant\<close> and \<open>p-4\<close> and a truth in which \<open>red\<close> is a color and \<open>4\<close> a spacing step
  while \<open>giant\<close> is no color (and no text size), the result has \<open>isValid = false\<close>, one
  error, and the code \<open>bg-red p-4\<close>.
\<close>

theorem validateCode_accumulates:
  "isValid (validateCode src t) = (\<forall>c \<in> set (extractClasses src). \<not> rejects t c)
   \<and> errors (validateCode src t) = map (rejection_message t) (filter (rejects t) (extractClasses src))
   \<and> length (errors (validateCode src t)) = length (filter (rejects t) (extractClasses src))
   \<and> code (validateCode src t) = join '' '' (filter (\<lambda>c. \<not> rejects t c) (extractClasses src))
   \<and> (extractClasses src = [''bg-red'', ''text-giant'', ''p-4'']
        \<and> truthy_at (colors t) ''red'' \<and> truthy_at (spacing t) ''4''
        \<and> \<not> truthy_at (colors t) ''giant''
        \<longrightarrow> isValid (validateCode src t) = False
          \<and> length (errors (validateCode src t)) = 1
          \<and> code (validateCode src t) = ''bg-red p-4'')"
proof -
  have gen: "validateCode src t =
     \<lparr> isValid = (\<forall>c \<in> set (extractClasses src). \<not> rejects t c),
       code = join '' '' (filter (\<lambda>c. \<not> rejects t c) (extractClasses src)),
       errors = map (rejection_message t) (filter (rejects t) (extractClasses src)) \<rparr>"
    by (rule validateCode_eq)
  have ex: "isValid (validateCode src t) = False
          \<and> length (errors (validateCode src t)) = 1
          \<and> code (validateCode src t) = ''bg-red p-4''"
    if "extractClasses src = [''bg-red'', ''text-giant'', ''p-4'']"
      and "truthy_at (colors t) ''red''" and "truthy_at (spacing t) ''4''"
      and "\<not> truthy_at (colors t) ''giant''"
    using sample_verdicts [OF that(2-4)] by (simp add: gen that(1))
  from gen ex show ?thesis by simp
qed

theorem validateCode_accumulates_witness:
  "extractClasses sample_markup = [''bg-red'', ''text-giant'', ''p-4'']
   \<and> truthy_at (colors sample_resolved) ''red'' \<and> truthy_at (spacing sample_resolved) ''4''
   \<and> \<not> truthy_at (colors sample_resolved) ''giant''
   \<and> isValid (validateCode sample_markup sample_resolved) = False
   \<and> length (errors (validateCode sample_markup sample_resolved)) = 1
   \<and> code (validateCode sample_markup sample_resolved) = ''bg-red p-4''"
proof -
  have h: "truthy_at (colors sample_resolved) ''red''" "truthy_at (spacing sample_resolved) ''4''"
    "\<not> truthy_at (colors sample_resolved) ''giant''"
    by (simp_all add: truthy_at_def sample_resolved_def Object_prototype_keys_def)
  have "extractClasses sample_markup = [''bg-red'', ''text-giant'', ''p-4'']
        \<and> truthy_at (colors sample_resolved) ''red'' \<and> truthy_at (spacing sample_resolved) ''4''
        \<and> \<not> truthy_at (colors sample_resolved) ''giant''
        \<longrightarrow> isValid (validateCode sample_markup sample_resolved) = False
          \<and> length (errors (validateCode sample_markup sample_resolved)) = 1
          \<and> code (validateCode sample_markup sample_resolved) = ''bg-red p-4''"
    using validateCode_accumulates [of sample_markup sample_resolved] by (elim conjE)
  with sample_markup_classes h show ?thesis by blast
qed

text \<open>
  Claim C4. A token that contains both \<open>[\<close> and \<open>]\<close> is rejected by step A of the loop
  body, before the prefix match and for every resolved truth; when it is one of the
  extracted tokens, the result is invalid, carries the arbitrary-value message for it,
  and the token is not among the tokens of the reconstructed code string.
\<close>

theorem arbitrary_value_veto:
  assumes "CHR ''['' \<in> set className" and "CHR '']'' \<in> set className"
  shows "validate_class resolvedTruth st className = push_error (arbitrary_message className) st
       \<and> rejects resolvedTruth className
       \<and> (className \<in> set (extractClasses src) \<longrightarrow>
            \<not> isValid (validateCode src resolvedTruth)
          \<and> arbitrary_message className \<in> set (errors (validateCode src resolvedTruth))
          \<and> className \<notin> set (class_tokens (code (validateCode src resolvedTruth))))"
proof -
  have a: "validate_class resolvedTruth st className = push_error (arbitrary_message className) st"
    using assms by (simp add: validate_class_def)
  have r: "rejects resolvedTruth className"
    and m: "rejection_message resolvedTruth className = arbitrary_message className"
    using assms by (rule rejects_arbitrary)+
  have "\<not> isValid (validateCode src resolvedTruth)
      \<and> arbitrary_message className \<in> set (errors (validateCode src resolvedTruth))
      \<and> className \<notin> set (class_tokens (code (validateCode src resolvedTruth)))"
    if mem: "className \<in> set (extractClasses src)"
  proof (intro conjI)
    show "\<not> isValid (validateCode src resolvedTruth)"
      using mem r by (auto simp: validateCode_eq)
    have "rejection_message resolvedTruth className
        \<in> rejection_message resolvedTruth ` set (filter (rejects resolvedTruth) (extractClasses src))"
      using mem r by (intro imageI) simp
    then show "arbitrary_message className \<in> set (errors (validateCode src resolvedTruth))"
      by (simp add: validateCode_eq m)
    show "className \<notin> set (class_tokens (code (validateCode src resolvedTruth)))"
      using r by (simp add: code_tokens)
  qed
  with a r show ?thesis by blast
qed

lemma arbitrary_markup_classes: "extractClasses arbitrary_markup = [''w-[50px]'', ''p-4'']"
  by code_simp

theorem arbitrary_value_veto_witness:
  "CHR ''['' \<in> set ''w-[50px]'' \<and> CHR '']'' \<in> set ''w-[50px]''
   \<and> ''w-[50px]'' \<in> set (extractClasses arbitrary_markup)
   \<and> \<not> isValid (validateCode arbitrary_markup sample_resolved)
   \<and> arbitrary_message ''w-[50px]'' \<in> set (errors (validateCode arbitrary_markup sample_resolved))
   \<and> ''w-[50px]'' \<notin> set (class_tokens (code (validateCode arbitrary_markup sample_resolved)))"
proof -
  have h1: "CHR ''['' \<in> set ''w-[50px]''" and h2: "CHR '']'' \<in> set ''w-[50px]''" by simp_all
  have h3: "''w-[50px]'' \<in> set (extractClasses arbitrary_markup)"
    by (simp add: arbitrary_markup_classes)
  from arbitrary_value_veto [OF h1 h2, of sample_resolved _ arbitrary_markup] h1 h2 h3
  show ?thesis by blast
qed

text \<open>
  Claim C5. For a token whose longest match is the prefix \<open>text-\<close> (category \<open>colors\<close>),
  a remainder in the fixed set of text sizes is accepted at once, whatever the truth;
  any other remainder is decided by the color check (rejected exactly when it is not
  empty and \<open>colors[remainder]\<close> is not truthy). Likewise for the prefix \<open>border-\<close> with
  the fixed set of border widths.
\<close>

theorem overloaded_prefix_order:
  assumes "\<not> (CHR ''['' \<in> set className \<and> CHR '']'' \<in> set className)"
  shows "(findLongestMatch className = Some (''colors'', ''text-'') \<longrightarrow>
            (extractToken className ''text-'' \<in> set TEXT_SIZES \<longrightarrow>
               validate_class resolvedTruth st className = push_valid className st
               \<and> \<not> rejects resolvedTruth className)
          \<and> (extractToken className ''text-'' \<notin> set TEXT_SIZES \<longrightarrow>
               (rejects resolvedTruth className \<longleftrightarrow>
                  extractToken className ''text-'' \<noteq> []
                  \<and> \<not> truthy_at (colors resolvedTruth) (extractToken className ''text-''))))
       \<and> (findLongestMatch className = Some (''colors'', ''border-'') \<longrightarrow>
            (extractToken className ''border-'' \<in> set BORDER_WIDTHS \<longrightarrow>
               validate_class resolvedTruth st className = push_valid className st
               \<and> \<not> rejects resolvedTruth className)
          \<and> (extractToken className ''border-'' \<notin> set BORDER_WIDTHS \<longrightarrow>
               (rejects resolvedTruth className \<longleftrightarrow>
                  extractToken className ''border-'' \<noteq> []
                  \<and> \<not> truthy_at (colors resolvedTruth) (extractToken className ''border-''))))"
proof -
  have tx: "validate_class resolvedTruth s className =
      (if extractToken className ''text-'' \<in> set TEXT_SIZES then push_valid className s
       else check_token className ''text-'' (extractToken className ''text-'')
              (truthy_at (colors resolvedTruth) (extractToken className ''text-''))
              (Object_keys (colors resolvedTruth)) s)"
    if "findLongestMatch className = Some (''colors'', ''text-'')" for s
    by (simp only: validate_class_matched [OF assms that] validate_matched_text)
  have bd: "validate_class resolvedTruth s className =
      (if extractToken className ''border-'' \<in> set BORDER_WIDTHS then push_valid className s
       else check_token className ''border-'' (extractToken className ''border-'')
              (truthy_at (colors resolvedTruth) (extractToken className ''border-''))
              (Object_keys (colors resolvedTruth)) s)"
    if "findLongestMatch className = Some (''colors'', ''border-'')" for s
    by (simp only: validate_class_matched [OF assms that] validate_matched_border)
  show ?thesis
  proof (intro conjI impI)
    assume m: "findLongestMatch className = Some (''colors'', ''text-'')"
    {
      assume "extractToken className ''text-'' \<in> set TEXT_SIZES"
      then show "validate_class resolvedTruth st className = push_valid className st"
        by (simp add: tx [OF m])
      from \<open>extractToken className ''text-'' \<in> set TEXT_SIZES\<close>
      show "\<not> rejects resolvedTruth className"
        by (simp add: not_rejects_iff tx [OF m] push_valid_def)
    }
    {
      assume "extractToken className ''text-'' \<notin> set TEXT_SIZES"
      then have "validate_class resolvedTruth ([], [], True) className =
          check_token className ''text-'' (extractToken className ''text-'')
              (truthy_at (colors resolvedTruth) (extractToken className ''text-''))
              (Object_keys (colors resolvedTruth)) ([], [], True)"
        by (simp add: tx [OF m])
      from rejects_check_token [OF this]
      show "rejects resolvedTruth className \<longleftrightarrow>
                  extractToken className ''text-'' \<noteq> []
                  \<and> \<not> truthy_at (colors resolvedTruth) (extractToken className ''text-'')" .
    }
  next
    assume m: "findLongestMatch className = Some (''colors'', ''border-'')"
    {
      assume "extractToken className ''border-'' \<in> set BORDER_WIDTHS"
      then show "validate_class resolvedTruth st className = push_valid className st"
        by (simp add: bd [OF m])
      from \<open>extractToken className ''border-'' \<in> set BORDER_WIDTHS\<close>
      show "\<not> rejects resolvedTruth className"
        by (simp add: not_rejects_iff bd [OF m] push_valid_def)
    }
    {
      assume "extractToken className ''border-'' \<notin> set BORDER_WIDTHS"
      then have "validate_class resolvedTruth ([], [], True) className =
          check_token className ''border-'' (extractToken className ''border-'')
              (truthy_at (colors resolvedTruth) (extractToken className ''border-''))
              (Object_keys (colors resolvedTruth)) ([], [], True)"
        by (simp add: bd [OF m])
      from rejects_check_token [OF this]
      show "rejects resolvedTruth className \<longleftrightarrow>
                  extractToken className ''border-'' \<noteq> []
                  \<and> \<not> truthy_at (colors resolvedTruth) (extractToken className ''border-'')" .
    }
  qed
qed

theorem overloaded_prefix_order_witness:
  "\<not> truthy_at (colors sample_resolved) ''xl'' \<and> \<not> rejects sample_resolved ''text-xl''
   \<and> truthy_at (colors sample_resolved) ''red'' \<and> \<not> rejects sample_resolved ''text-red''
   \<and> rejects sample_resolved ''text-giant''
   \<and> \<not> truthy_at (colors sample_resolved) ''2'' \<and> \<not> rejects sample_resolved ''border-2''
   \<and> \<not> rejects sample_resolved ''border-red''
   \<and> rejects sample_resolved ''border-giant''"
proof -
  have t: "\<not> truthy_at (colors sample_resolved) ''xl''" "truthy_at (colors sample_resolved) ''red''"
    "\<not> truthy_at (colors sample_resolved) ''giant''" "\<not> truthy_at (colors sample_resolved) ''2''"
    by (simp_all add: truthy_at_def sample_resolved_def Object_prototype_keys_def)
  have m: "findLongestMatch ''text-xl'' = Some (''colors'', ''text-'')"
    "findLongestMatch ''text-red'' = Some (''colors'', ''text-'')"
    "findLongestMatch ''text-giant'' = Some (''colors'', ''text-'')"
    "findLongestMatch ''border-2'' = Some (''colors'', ''border-'')"
    "findLongestMatch ''border-red'' = Some (''colors'', ''border-'')"
    "findLongestMatch ''border-giant'' = Some (''colors'', ''border-'')"
    by code_simp+
  have k: "extractToken ''text-xl'' ''text-'' = ''xl''"
    "extractToken ''text-red'' ''text-'' = ''red''"
    "extractToken ''text-giant'' ''text-'' = ''giant''"
    "extractToken ''border-2'' ''border-'' = ''2''"
    "extractToken ''border-red'' ''border-'' = ''red''"
    "extractToken ''border-giant'' ''border-'' = ''giant''"
    by (simp_all add: extractToken_def endsWith_dash_def)
  have s: "''xl'' \<in> set TEXT_SIZES" "''red'' \<notin> set TEXT_SIZES" "''giant'' \<notin> set TEXT_SIZES"
    "''2'' \<in> set BORDER_WIDTHS" "''red'' \<notin> set BORDER_WIDTHS" "''giant'' \<notin> set BORDER_WIDTHS"
    by (simp_all add: TEXT_SIZES_def BORDER_WIDTHS_def)
  have a: "\<not> rejects sample_resolved ''text-xl''"
    using overloaded_prefix_order [of "''text-xl''" sample_resolved] m k s by simp
  have b: "\<not> rejects sample_resolved ''text-red''"
    using overloaded_prefix_order [of "''text-red''" sample_resolved] m k s t by simp
  have c: "rejects sample_resolved ''text-giant''"
    using overloaded_prefix_order [of "''text-giant''" sample_resolved] m k s t by simp
  have d: "\<not> rejects sample_resolved ''border-2''"
    using overloaded_prefix_order [of "''border-2''" sample_resolved] m k s by simp
  have e: "\<not> rejects sample_resolved ''border-red''"
    using overloaded_prefix_order [of "''border-red''" sample_resolved] m k s t by simp
  have f: "rejects sample_resolved ''border-giant''"
    using overloaded_prefix_order [of "''border-giant''" sample_resolved] m k s t by simp
  from t a b c d e f show ?thesis by blast
qed

text \<open>
  Claim C10. For every resolved truth, a class that is exactly one of the strict
  prefixes (those of \<open>colors\<close> and \<open>spacing\<close>) matches that prefix with an empty
  remainder, is accepted, and, when extracted from the source, is among the tokens of
  the reconstructed code string: the membership check applies to non-empty remainders
  only.
\<close>

theorem bare_strict_prefix_accepted:
  assumes "prefix \<in> set strict_prefixes"
  shows "(findLongestMatch prefix = Some (''colors'', prefix)
            \<or> findLongestMatch prefix = Some (''spacing'', prefix))
       \<and> extractToken prefix prefix = []
       \<and> validate_class resolvedTruth st prefix = push_valid prefix st
       \<and> \<not> rejects resolvedTruth prefix
       \<and> (prefix \<in> set (extractClasses src) \<longrightarrow>
            prefix \<in> set (class_tokens (code (validateCode src resolvedTruth))))"
proof -
  from assms strict_prefixes_match
  have nb: "\<not> (CHR ''['' \<in> set prefix \<and> CHR '']'' \<in> set prefix)"
    and m: "findLongestMatch prefix = Some (''colors'', prefix)
            \<or> findLongestMatch prefix = Some (''spacing'', prefix)"
    and tok: "extractToken prefix prefix = []"
    by (simp_all add: list_all_iff)
  from m obtain category where c: "findLongestMatch prefix = Some (category, prefix)" by blast
  have v: "validate_class resolvedTruth s prefix = push_valid prefix s" for s
    by (simp add: validate_class_matched [OF nb c] validate_matched_empty_token [OF tok])
  have r: "\<not> rejects resolvedTruth prefix"
    by (simp add: not_rejects_iff v push_valid_def)
  have "prefix \<in> set (class_tokens (code (validateCode src resolvedTruth)))"
    if "prefix \<in> set (extractClasses src)"
    using that r by (simp add: code_tokens)
  with m tok v r show ?thesis by blast
qed

lemma bare_markup_classes: "extractClasses bare_markup = [''bg-'', ''p-'']"
  by code_simp

theorem bare_strict_prefix_accepted_witness:
  "''bg-'' \<in> set strict_prefixes \<and> ''p-'' \<in> set strict_prefixes
   \<and> ''bg-'' \<in> set (extractClasses bare_markup)
   \<and> map_of (colors sample_resolved) [] = None \<and> map_of (spacing sample_resolved) [] = None
   \<and> ''bg-'' \<in> set (class_tokens (code (validateCode bare_markup sample_resolved)))
   \<and> validateCode bare_markup sample_resolved = \<lparr> isValid = True, code = ''bg- p-'', errors = [] \<rparr>"
proof -
  have h1: "''bg-'' \<in> set strict_prefixes" and h2: "''p-'' \<in> set strict_prefixes"
    by (simp_all add: strict_prefixes_def SCOPED_PREFIXES_def)
  have h3: "''bg-'' \<in> set (extractClasses bare_markup)" by (simp add: bare_markup_classes)
  have e: "map_of (colors sample_resolved) [] = None" "map_of (spacing sample_resolved) [] = None"
    by (simp_all add: sample_resolved_def)
  have a: "\<not> rejects sample_resolved ''bg-''"
    and b: "''bg-'' \<in> set (class_tokens (code (validateCode bare_markup sample_resolved)))"
    using bare_strict_prefix_accepted [OF h1, of sample_resolved _ bare_markup] h3 by blast+
  have c: "\<not> rejects sample_resolved ''p-''"
    using bare_strict_prefix_accepted [OF h2, of sample_resolved] by blast
  have "validateCode bare_markup sample_resolved = \<lparr> isValid = True, code = ''bg- p-'', errors = [] \<rparr>"
    using a c by (simp add: validateCode_eq bare_markup_classes)
  with h1 h2 h3 e b show ?thesis by blast
qed

lemma strip_literal_length: "strip_literal lit s = Some r \<Longrightarrow> length r + length lit = length s"
  by (induction lit s rule: strip_literal.induct) (auto split: if_splits)

lemma attr_head_shorter: "attr_head lit s = Some r \<Longrightarrow> length r < length s"
proof -
  assume a: "attr_head lit s = Some r"
  then obtain r1 e r2 where 1: "strip_literal lit s = Some r1"
    and 2: "dropWhile is_space r1 = e # r2" and 3: "r = dropWhile is_space r2"
    by (auto simp: attr_head_def split: option.splits list.splits if_splits)
  have "length r \<le> length r2" unfolding 3 by (rule length_dropWhile_le)
  moreover have "length (e # r2) \<le> length r1" unfolding 2 [symmetric] by (rule length_dropWhile_le)
  moreover have "length r1 \<le> length s" using strip_literal_length [OF 1] by simp
  ultimately show ?thesis by simp
qed

lemma quoted_group_shorter: "quoted_group quote s = Some (body, r) \<Longrightarrow> length r < length s"
proof -
  assume a: "quoted_group quote s = Some (body, r)"
  then obtain q s' q' where 1: "s = q # s'" and 2: "dropWhile (\<lambda>c. \<not> quote c) s' = q' # r"
    by (auto simp: quoted_group_def Let_def split: list.splits if_splits)
  have "length (q' # r) \<le> length s'" unfolding 2 [symmetric] by (rule length_dropWhile_le)
  with 1 show ?thesis by simp
qed

lemma opt_char_length: "length (opt_char c s) \<le> length s"
  by (cases s) (auto simp: opt_char_def)

lemma match_here_shorter:
  assumes "match_here s = Some (classString, rest)"
  shows "length rest < length s"
proof (cases "match_className s")
  case None
  with assms obtain r where "attr_head ''class'' s = Some r"
    and "quoted_group quote2 r = Some (classString, rest)"
    by (auto simp: match_here_def match_class_def split: option.splits)
  then show ?thesis
    using attr_head_shorter [of "''class''" s r] quoted_group_shorter [of quote2 r classString rest]
    by simp
next
  case (Some m)
  with assms have "match_className s = Some (classString, rest)" by (simp add: match_here_def)
  then obtain r rest' where 1: "attr_head ''className'' s = Some r"
    and 2: "quoted_group quote3 (opt_char CHR ''{'' r) = Some (classString, rest')"
    and 3: "rest = opt_char CHR ''}'' rest'"
    by (auto simp: match_className_def split: option.splits)
  show ?thesis
    using attr_head_shorter [OF 1] quoted_group_shorter [OF 2]
      opt_char_length [of "CHR ''{''" r] opt_char_length [of "CHR ''}''" rest'] 3
    by simp
qed

lemma scan_classes_Cons:
  "scan_classes (c # cs) =
     (case match_here (c # cs) of
        None \<Rightarrow> scan_classes cs
      | Some (classString, rest) \<Rightarrow> class_tokens classString @ scan_classes rest)"
  using match_here_shorter [of "c # cs"] by (auto split: option.splits)

section \<open>SuggestionEngine: the edit distance and the nearest candidates\<close>

lemma lev_rec_Nil2: "lev_rec xs [] = length xs"
  by (cases xs) auto

lemma lev_rec_same: "lev_rec xs xs = 0"
  by (induction xs) auto

lemma lev_rec_ins_head: "lev_rec xs (c # v) \<le> lev_rec xs v + 1"
  by (cases xs) (auto simp: lev_rec_Nil2)

lemma lev_rec_del_head_left: "lev_rec (x # xs) v \<le> lev_rec xs v + 1"
  by (cases v) (auto simp: lev_rec_Nil2)

lemma lev_rec_del_head: "lev_rec xs v \<le> lev_rec xs (c # v) + 1"
proof (induction xs)
  case Nil
  show ?case by simp
next
  case (Cons x xs)
  have a: "lev_rec (x # xs) v \<le> lev_rec xs v + 1" by (rule lev_rec_del_head_left)
  from a Cons.IH show ?case by (auto simp: min_def)
qed

lemma lev_rec_ins_head_left: "lev_rec xs v \<le> lev_rec (x # xs) v + 1"
proof (induction v)
  case Nil
  show ?case by (simp add: lev_rec_Nil2)
next
  case (Cons y v)
  have a: "lev_rec xs (y # v) \<le> lev_rec xs v + 1" by (rule lev_rec_ins_head)
  from a Cons.IH show ?case by (auto simp: min_def)
qed

lemma lev_rec_sub_head: "lev_rec xs (d # v) \<le> lev_rec xs (c # v) + 1"
proof (induction xs)
  case Nil
  show ?case by simp
next
  case (Cons x xs)
  from Cons.IH show ?case by (auto simp: min_def)
qed

lemma lev_rec_context:
  assumes "\<And>xs. lev_rec xs w' \<le> lev_rec xs w + 1"
  shows "lev_rec xs (y # w') \<le> lev_rec xs (y # w) + 1"
proof (induction xs)
  case Nil
  from assms [of "[]"] show ?case by simp
next
  case (Cons x xs)
  from assms [of xs] assms [of "x # xs"] Cons.IH show ?case by (auto simp: min_def)
qed

lemma lev_rec_prefix_context:
  assumes "\<And>xs. lev_rec xs w' \<le> lev_rec xs w + 1"
  shows "lev_rec xs (u @ w') \<le> lev_rec xs (u @ w) + 1"
proof (induction u arbitrary: xs)
  case Nil
  show ?case using assms by simp
next
  case (Cons y u)
  show ?case using lev_rec_context [of "u @ w'" "u @ w" xs y] Cons.IH by simp
qed

lemma lev_rec_one_edit:
  assumes "one_edit w w'"
  shows "lev_rec xs w' \<le> lev_rec xs w + 1"
  using assms
proof cases
  case (insertion u v c)
  have "lev_rec xs (u @ c # v) \<le> lev_rec xs (u @ v) + 1"
    by (rule lev_rec_prefix_context) (rule lev_rec_ins_head)
  with insertion show ?thesis by simp
next
  case (deletion u c v)
  have "lev_rec xs (u @ v) \<le> lev_rec xs (u @ c # v) + 1"
    by (rule lev_rec_prefix_context) (rule lev_rec_del_head)
  with deletion show ?thesis by simp
next
  case (substitution u c v d)
  have "lev_rec xs (u @ d # v) \<le> lev_rec xs (u @ c # v) + 1"
    by (rule lev_rec_prefix_context) (rule lev_rec_sub_head)
  with substitution show ?thesis by simp
qed

lemma lev_rec_lower: "(one_edit ^^ n) xs ys \<Longrightarrow> lev_rec xs ys \<le> n"
proof (induction n arbitrary: ys)
  case 0
  then show ?case by (simp add: lev_rec_same)
next
  case (Suc n)
  from Suc.prems obtain zs where "(one_edit ^^ n) xs zs" and "one_edit zs ys"
    by (auto elim: relpowp_Suc_E)
  with Suc.IH [of zs] lev_rec_one_edit [of zs ys xs] show ?case by simp
qed

lemma one_edit_Cons:
  assumes "one_edit w w'"
  shows "one_edit (y # w) (y # w')"
  using assms
proof cases
  case (insertion u v c)
  have "one_edit ((y # u) @ v) ((y # u) @ c # v)" by (rule one_edit.insertion)
  with insertion show ?thesis by simp
next
  case (deletion u c v)
  have "one_edit ((y # u) @ c # v) ((y # u) @ v)" by (rule one_edit.deletion)
  with deletion show ?thesis by simp
next
  case (substitution u c v d)
  have "one_edit ((y # u) @ c # v) ((y # u) @ d # v)" by (rule one_edit.substitution)
  with substitution show ?thesis by simp
qed

lemma edits_Cons: "(one_edit ^^ n) w w' \<Longrightarrow> (one_edit ^^ n) (y # w) (y # w')"
proof (induction n arbitrary: w')
  case 0
  then show ?case by simp
next
  case (Suc n)
  from Suc.prems obtain z where "(one_edit ^^ n) w z" and "one_edit z w'"
    by (auto elim: relpowp_Suc_E)
  with Suc.IH [of z] show ?case by (auto intro: relpowp_Suc_I one_edit_Cons)
qed

lemma one_edit_heads:
  "one_edit v (c # v)" "one_edit (c # v) v" "one_edit (c # v) (d # v)"
  using one_edit.insertion [of "[]" v c] one_edit.deletion [of "[]" c v]
    one_edit.substitution [of "[]" c v d] by simp_all

lemma edits_from_Nil: "(one_edit ^^ length ys) [] ys"
proof (induction ys rule: rev_induct)
  case Nil
  show ?case by simp
next
  case (snoc y ys)
  have "one_edit (ys @ []) (ys @ y # [])" by (rule one_edit.insertion)
  then have "one_edit ys (ys @ [y])" by simp
  with snoc have "(one_edit ^^ Suc (length ys)) [] (ys @ [y])" by (rule relpowp_Suc_I)
  then show ?case by simp
qed

lemma edits_to_Nil: "(one_edit ^^ length xs) xs []"
proof (induction xs)
  case Nil
  show ?case by simp
next
  case (Cons x xs)
  have "one_edit (x # xs) xs" by (rule one_edit_heads)
  from this Cons have "(one_edit ^^ Suc (length xs)) (x # xs) []" by (rule relpowp_Suc_I2)
  then show ?case by simp
qed

lemma lev_rec_upper: "(one_edit ^^ lev_rec xs ys) xs ys"
proof (induction xs ys rule: lev_rec.induct)
  case (1 ys)
  show ?case using edits_from_Nil [of ys] by simp
next
  case (2 x xs)
  show ?case using edits_to_Nil [of "x # xs"] by simp
next
  case (3 x xs y ys)
  let ?A = "lev_rec xs ys + (if x = y then 0 else 1)"
  let ?B = "lev_rec (x # xs) ys + 1"
  let ?C = "lev_rec xs (y # ys) + 1"
  have A: "(one_edit ^^ ?A) (x # xs) (y # ys)"
  proof (cases "x = y")
    case True
    with edits_Cons [OF "3.IH"(1), of y] show ?thesis by simp
  next
    case False
    have "(one_edit ^^ lev_rec xs ys) (x # xs) (x # ys)" by (rule edits_Cons [OF "3.IH"(1)])
    moreover have "one_edit (x # ys) (y # ys)" by (rule one_edit_heads)
    ultimately have "(one_edit ^^ Suc (lev_rec xs ys)) (x # xs) (y # ys)"
      by (rule relpowp_Suc_I)
    with False show ?thesis by simp
  qed
  have B: "(one_edit ^^ ?B) (x # xs) (y # ys)"
  proof -
    have "one_edit ys (y # ys)" by (rule one_edit_heads)
    with "3.IH"(2) have "(one_edit ^^ Suc (lev_rec (x # xs) ys)) (x # xs) (y # ys)"
      by (rule relpowp_Suc_I)
    then show ?thesis by simp
  qed
  have C: "(one_edit ^^ ?C) (x # xs) (y # ys)"
  proof -
    have "one_edit (x # xs) xs" by (rule one_edit_heads)
    from this "3.IH"(3) have "(one_edit ^^ Suc (lev_rec xs (y # ys))) (x # xs) (y # ys)"
      by (rule relpowp_Suc_I2)
    then show ?thesis by simp
  qed
  have "lev_rec (x # xs) (y # ys) = ?A \<or> lev_rec (x # xs) (y # ys) = ?B
      \<or> lev_rec (x # xs) (y # ys) = ?C"
    by (simp add: min_def)
  with A B C show ?case by metis
qed

lemma edit_distance_lev_rec: "edit_distance xs ys = lev_rec xs ys"
  unfolding edit_distance_def
  by (rule Least_equality) (auto intro: lev_rec_upper lev_rec_lower)

lemma init_rows:
  "foldl (\<lambda>matrix i. arr_set matrix i [i]) [] [0 ..< k] = map (\<lambda>i. [i]) [0 ..< k]"
  by (induction k) (simp_all add: arr_set_def)

lemma first_row:
  assumes "M \<noteq> []" and "M ! 0 = [0]"
  shows "foldl (\<lambda>matrix j. arr_set2 matrix 0 j j) M [0 ..< Suc k] = M[0 := [0 ..< Suc k]]"
proof (induction k)
  case 0
  from assms show ?case by (simp add: arr_set2_def arr_set_def list_update_same_conv)
next
  case (Suc k)
  from assms Suc show ?case by (simp add: arr_set2_def arr_set_def)
qed

lemma lev_row_nth: "j \<le> k \<Longrightarrow> lev_row a b i k ! j = lev_entry a b i j"
  unfolding lev_row_def by (metis add_0 less_Suc_eq_le nth_map_upt diff_zero)

lemma lev_row_length: "length (lev_row a b i k) = Suc k"
  by (simp add: lev_row_def)

lemma lev_row_Suc: "lev_row a b i (Suc k) = lev_row a b i k @ [lev_entry a b i (Suc k)]"
  by (simp add: lev_row_def)

lemma inner_loop:
  assumes i: "i < length M" and prev: "M ! i' = lev_row a b i' (length a)"
    and cur: "M ! i = [i]" and ii: "i = Suc i'" and k: "k \<le> length a"
  shows "foldl (\<lambda>matrix j. lev_cell a b matrix i j) M [1 ..< Suc k] = M[i := lev_row a b i k]"
  using k
proof (induction k)
  case 0
  have "M[i := M ! i] = M" by (rule list_update_id)
  with cur ii show ?case by (simp add: lev_row_def)
next
  case (Suc k)
  let ?M = "M[i := lev_row a b i k]"
  from Suc have ih: "foldl (\<lambda>matrix j. lev_cell a b matrix i j) M [1 ..< Suc k] = ?M"
    by simp
  have Mi: "?M ! i = lev_row a b i k" using i by simp
  have Mp: "?M ! i' = lev_row a b i' (length a)" using prev ii by simp
  have e1: "?M ! i' ! k = lev_entry a b i' k" using Suc.prems by (simp add: Mp lev_row_nth)
  have e2: "?M ! i ! k = lev_entry a b i k" by (simp add: Mi lev_row_nth)
  have e3: "?M ! i' ! Suc k = lev_entry a b i' (Suc k)"
    using Suc.prems by (simp add: Mp lev_row_nth)
  have grow: "arr_set2 ?M i (Suc k) v = ?M[i := lev_row a b i k @ [v]]" for v
    unfolding arr_set2_def arr_set_def Mi by (simp add: lev_row_length)
  have im: "i - 1 = i'" using ii by simp
  have cellv: "(if b ! i' = a ! k then ?M ! i' ! k
       else min (?M ! i' ! k + 1) (min (?M ! i ! k + 1) (?M ! i' ! Suc k + 1)))
      = lev_entry a b i (Suc k)"
    using e1 e2 e3 by (simp add: ii)
  have "lev_cell a b ?M i (Suc k) = arr_set2 ?M i (Suc k) (lev_entry a b i (Suc k))"
    unfolding lev_cell_def im cellv [symmetric] by simp
  then have cell: "lev_cell a b ?M i (Suc k) = ?M[i := lev_row a b i k @ [lev_entry a b i (Suc k)]]"
    by (simp only: grow)
  have "foldl (\<lambda>matrix j. lev_cell a b matrix i j) M [1 ..< Suc (Suc k)] = lev_cell a b ?M i (Suc k)"
    using ih by simp
  then show ?case by (simp add: cell lev_row_Suc)
qed

lemma outer_loop:
  assumes "r \<le> length b"
  shows "foldl (\<lambda>matrix i. foldl (\<lambda>matrix j. lev_cell a b matrix i j) matrix [1 ..< Suc (length a)])
            (map (\<lambda>i. lev_row a b i (length a)) [0 ..< 1] @ map (\<lambda>i. [i]) [1 ..< Suc (length b)])
            [1 ..< Suc r]
         = map (\<lambda>i. lev_row a b i (length a)) [0 ..< Suc r] @ map (\<lambda>i. [i]) [Suc r ..< Suc (length b)]"
  using assms
proof (induction r)
  case 0
  show ?case by simp
next
  case (Suc r)
  let ?row = "\<lambda>i. lev_row a b i (length a)"
  let ?M = "map ?row [0 ..< Suc r] @ map (\<lambda>i. [i]) [Suc r ..< Suc (length b)]"
  from Suc have ih: "foldl (\<lambda>matrix i. foldl (\<lambda>matrix j. lev_cell a b matrix i j) matrix [1 ..< Suc (length a)])
            (map ?row [0 ..< 1] @ map (\<lambda>i. [i]) [1 ..< Suc (length b)]) [1 ..< Suc r] = ?M"
    by simp
  have len: "Suc r < length ?M" using Suc.prems by simp
  have prev: "?M ! r = ?row r"
    by (simp add: nth_append del: upt_Suc)
  have hd_split: "[Suc r ..< Suc (length b)] = Suc r # [Suc (Suc r) ..< Suc (length b)]"
    using Suc.prems by (simp add: upt_conv_Cons)
  have cur: "?M ! Suc r = [Suc r]"
    by (simp add: nth_append hd_split del: upt_Suc)
  have inner: "foldl (\<lambda>matrix j. lev_cell a b matrix (Suc r) j) ?M [1 ..< Suc (length a)]
      = ?M[Suc r := ?row (Suc r)]"
    by (rule inner_loop [OF len prev cur refl order_refl])
  have upd: "?M[Suc r := ?row (Suc r)]
      = map ?row [0 ..< Suc (Suc r)] @ map (\<lambda>i. [i]) [Suc (Suc r) ..< Suc (length b)]"
    by (simp add: list_update_append hd_split del: upt_Suc) simp
  have "[1 ..< Suc (Suc r)] = [1 ..< Suc r] @ [Suc r]" by simp
  then show ?case
    unfolding \<open>[1 ..< Suc (Suc r)] = [1 ..< Suc r] @ [Suc r]\<close> foldl_append ih
    using inner upd by simp
qed

lemma levenshtein_entry: "levenshtein a b = lev_entry a b (length b) (length a)"
proof -
  let ?row = "\<lambda>i. lev_row a b i (length a)"
  let ?M0 = "map (\<lambda>i. [i]) [0 ..< Suc (length b)]"
  have m0: "foldl (\<lambda>matrix i. arr_set matrix i [i]) [] [0 ..< Suc (length b)] = ?M0"
    by (rule init_rows)
  have row0: "?row 0 = [0 ..< Suc (length a)]"
    unfolding lev_row_def by (rule map_idI) simp
  have hd_split: "[0 ..< Suc (length b)] = 0 # [1 ..< Suc (length b)]"
    by (subst upt_rec) simp
  have m1: "foldl (\<lambda>matrix j. arr_set2 matrix 0 j j) ?M0 [0 ..< Suc (length a)]
      = map ?row [0 ..< 1] @ map (\<lambda>i. [i]) [1 ..< Suc (length b)]"
  proof -
    have "foldl (\<lambda>matrix j. arr_set2 matrix 0 j j) ?M0 [0 ..< Suc (length a)]
        = ?M0[0 := [0 ..< Suc (length a)]]"
      by (rule first_row) (simp_all add: hd_split del: upt_Suc)
    also have "\<dots> = map ?row [0 ..< 1] @ map (\<lambda>i. [i]) [1 ..< Suc (length b)]"
    proof -
      have "map ?row [0 ..< 1] = [[0 ..< Suc (length a)]]" by (simp add: row0)
      then show ?thesis by (simp add: hd_split del: upt_Suc)
    qed
    finally show ?thesis .
  qed
  have m2: "foldl (\<lambda>matrix i. foldl (\<lambda>matrix j. lev_cell a b matrix i j) matrix [1 ..< Suc (length a)])
            (map ?row [0 ..< 1] @ map (\<lambda>i. [i]) [1 ..< Suc (length b)])
            [1 ..< Suc (length b)]
         = map ?row [0 ..< Suc (length b)]"
    using outer_loop [of "length b" b a] by simp
  have "levenshtein a b = map ?row [0 ..< Suc (length b)] ! length b ! length a"
    unfolding levenshtein_def Let_def m0 m1 m2 ..
  also have "\<dots> = ?row (length b) ! length a"
    by (metis add_0 lessI nth_map_upt diff_zero)
  also have "\<dots> = lev_entry a b (length b) (length a)"
    by (simp add: lev_row_nth)
  finally show ?thesis .
qed

lemma lev_rec_same_head: "lev_rec (x # xs) (x # ys) = lev_rec xs ys"
  using lev_rec_ins_head_left [of xs ys x] lev_rec_del_head [of xs ys x] by (simp add: min_def)

lemma lev_entry_rec:
  "i \<le> length b \<Longrightarrow> j \<le> length a \<Longrightarrow>
   lev_entry a b i j = lev_rec (rev (take i b)) (rev (take j a))"
proof (induction a b i j rule: lev_entry.induct)
  case (1 a b j)
  then show ?case by simp
next
  case (2 a b i)
  then show ?case by (simp add: lev_rec_Nil2)
next
  case (3 a b i j)
  from "3.prems" have ti: "take (Suc i) b = take i b @ [b ! i]"
    and tj: "take (Suc j) a = take j a @ [a ! j]"
    by (simp_all add: take_Suc_conv_app_nth)
  show ?case
  proof (cases "b ! i = a ! j")
    case True
    from "3.IH"(1) [OF True] "3.prems"
    have ih: "lev_entry a b i j = lev_rec (rev (take i b)) (rev (take j a))" by simp
    have "lev_rec (rev (take (Suc i) b)) (rev (take (Suc j) a))
        = lev_rec (a ! j # rev (take i b)) (a ! j # rev (take j a))"
      by (simp only: ti tj rev_append rev.simps append.simps True)
    also have "\<dots> = lev_rec (rev (take i b)) (rev (take j a))" by (rule lev_rec_same_head)
    finally show ?thesis using True ih by simp
  next
    case False
    with "3.IH"(2,3,4) "3.prems" have
      "lev_entry a b i j = lev_rec (rev (take i b)) (rev (take j a))"
      "lev_entry a b (Suc i) j = lev_rec (rev (take (Suc i) b)) (rev (take j a))"
      "lev_entry a b i (Suc j) = lev_rec (rev (take i b)) (rev (take (Suc j) a))"
      by simp_all
    with False show ?thesis by (simp add: ti tj)
  qed
qed

lemma one_edit_rev:
  assumes "one_edit w w'"
  shows "one_edit (rev w) (rev w')"
  using assms
proof cases
  case (insertion u v c)
  have "one_edit (rev v @ rev u) (rev v @ c # rev u)" by (rule one_edit.insertion)
  with insertion show ?thesis by simp
next
  case (deletion u c v)
  have "one_edit (rev v @ c # rev u) (rev v @ rev u)" by (rule one_edit.deletion)
  with deletion show ?thesis by simp
next
  case (substitution u c v d)
  have "one_edit (rev v @ c # rev u) (rev v @ d # rev u)" by (rule one_edit.substitution)
  with substitution show ?thesis by simp
qed

lemma one_edit_sym:
  assumes "one_edit w w'"
  shows "one_edit w' w"
  using assms
proof cases
  case (insertion u v c)
  then show ?thesis by (simp add: one_edit.deletion)
next
  case (deletion u c v)
  then show ?thesis by (simp add: one_edit.insertion)
next
  case (substitution u c v d)
  then show ?thesis by (simp add: one_edit.substitution)
qed

lemma edits_rev_sym: "(one_edit ^^ n) w w' \<Longrightarrow> (one_edit ^^ n) (rev w') (rev w)"
proof (induction n arbitrary: w')
  case 0
  then show ?case by simp
next
  case (Suc n)
  from Suc.prems obtain z where a: "(one_edit ^^ n) w z" and b: "one_edit z w'"
    by (auto elim: relpowp_Suc_E)
  from b have "one_edit w' z" by (rule one_edit_sym)
  then have "one_edit (rev w') (rev z)" by (rule one_edit_rev)
  from this Suc.IH [OF a] show ?case by (rule relpowp_Suc_I2)
qed

lemma edit_distance_rev_sym: "edit_distance (rev b) (rev a) = edit_distance a b"
proof -
  have "(one_edit ^^ n) (rev b) (rev a) = (one_edit ^^ n) a b" for n
    using edits_rev_sym [of n a b] edits_rev_sym [of n "rev b" "rev a"] by auto
  then show ?thesis by (simp add: edit_distance_def)
qed

lemma levenshtein_edit_distance: "levenshtein a b = edit_distance a b"
proof -
  have "levenshtein a b = lev_rec (rev b) (rev a)"
    by (simp add: levenshtein_entry lev_entry_rec)
  also have "\<dots> = edit_distance (rev b) (rev a)" by (simp add: edit_distance_lev_rec)
  also have "\<dots> = edit_distance a b" by (rule edit_distance_rev_sym)
  finally show ?thesis .
qed

lemma edits_length: "(one_edit ^^ n) w w' \<Longrightarrow> length w \<le> length w' + n \<and> length w' \<le> length w + n"
proof (induction n arbitrary: w')
  case 0
  then show ?case by simp
next
  case (Suc n)
  from Suc.prems obtain z where a: "(one_edit ^^ n) w z" and b: "one_edit z w'"
    by (auto elim: relpowp_Suc_E)
  from b have "length z \<le> length w' + 1 \<and> length w' \<le> length z + 1"
    by cases auto
  with Suc.IH [OF a] show ?case by simp
qed

lemma edit_distance_reached: "(one_edit ^^ edit_distance a b) a b"
  by (simp add: edit_distance_lev_rec lev_rec_upper)

lemma edit_distance_le: "(one_edit ^^ n) a b \<Longrightarrow> edit_distance a b \<le> n"
  by (simp add: edit_distance_lev_rec lev_rec_lower)

lemma edit_distance_length: "length b \<le> length a + edit_distance a b"
  using edits_length [OF edit_distance_reached [of a b]] by simp

lemma edit_distance_zero: "edit_distance a b = 0 \<longleftrightarrow> a = b"
proof
  assume "edit_distance a b = 0"
  with edit_distance_reached [of a b] show "a = b" by simp
next
  assume "a = b"
  then have "(one_edit ^^ 0) a b" by simp
  from edit_distance_le [OF this] show "edit_distance a b = 0" by simp
qed

lemma insort_key_pairs:
  "insort_key snd (x, f x) (map (\<lambda>y. (y, f y)) ys) = map (\<lambda>y. (y, f y)) (insort_key f x ys)"
  by (induction ys) auto

lemma sort_key_pairs:
  "sort_key snd (map (\<lambda>y. (y, f y)) xs) = map (\<lambda>y. (y, f y)) (sort_key f xs)"
  by (induction xs) (simp_all add: insort_key_pairs)

lemma findClosest_sorted:
  "findClosest target options = take 3 (sort_key (edit_distance target) options)"
proof -
  have "(\<lambda>option. (option, levenshtein target option)) = (\<lambda>y. (y, edit_distance target y))"
    by (simp add: levenshtein_edit_distance)
  then show ?thesis
    by (simp add: findClosest_def sort_key_pairs take_map comp_def)
qed

lemma lev_rec_common_prefix: "lev_rec (u @ xs) (u @ ys) = lev_rec xs ys"
  by (induction u) (simp_all only: append.simps lev_rec_same_head)

lemma blue_distances:
  "edit_distance ''blue-50'' ''blue-500'' = 1"
  "edit_distance ''blue-50'' ''blue-600'' = 2"
  "2 \<le> edit_distance ''blue-50'' ''green-500''"
proof -
  have p1: "lev_rec ''blue-50'' ''blue-500'' = lev_rec ''50'' ''500''"
    using lev_rec_common_prefix [of "''blue-''" "''50''" "''500''"] by (simp only: append.simps)
  have q1: "lev_rec ''50'' ''500'' = 1" by simp
  show "edit_distance ''blue-50'' ''blue-500'' = 1"
    by (simp only: edit_distance_lev_rec p1 q1)
  have p2: "lev_rec ''blue-50'' ''blue-600'' = lev_rec ''50'' ''600''"
    using lev_rec_common_prefix [of "''blue-''" "''50''" "''600''"] by (simp only: append.simps)
  have q2: "lev_rec ''50'' ''600'' = 2" by simp
  show "edit_distance ''blue-50'' ''blue-600'' = 2"
    by (simp only: edit_distance_lev_rec p2 q2)
  show "2 \<le> edit_distance ''blue-50'' ''green-500''"
    using edit_distance_length [of "''green-500''" "''blue-50''"] by simp
qed

lemma small_distances:
  "edit_distance ''ab'' ''xyz'' = 3" "edit_distance ''ab'' ''ab'' = 0"
  "edit_distance ''ab'' ''b'' = 1" "edit_distance ''ab'' ''abc'' = 1"
  "edit_distance ''ab'' ''a'' = 1" "edit_distance ''Blue'' ''blue'' = 1"
  by (simp_all add: edit_distance_lev_rec)

text \<open>
  Claim C7. \<open>levenshtein\<close> computes the edit distance, the least number of
  single-character insertions, deletions and substitutions, comparing characters
  literally; \<open>findClosest\<close> returns the first three candidates of the pool sorted stably
  by that distance: up to three candidates in ascending distance, none farther than a
  candidate left out, ties in the order of the pool. For the target \<open>blue-50\<close> and the
  pool \<open>blue-500\<close>, \<open>blue-600\<close>, \<open>green-500\<close> the first suggestion is \<open>blue-500\<close>, at
  distance 1, before \<open>blue-600\<close> (distance 2) and \<open>green-500\<close> (distance at least 2).
\<close>

theorem findClosest_nearest:
  "levenshtein target candidate = edit_distance target candidate
   \<and> findClosest target options = take 3 (sort_key (edit_distance target) options)
   \<and> length (findClosest target options) = min 3 (length options)
   \<and> sorted (map (edit_distance target) (findClosest target options))
   \<and> (\<forall>x \<in> set (findClosest target options).
        \<forall>y \<in> set options - set (findClosest target options).
          edit_distance target x \<le> edit_distance target y)
   \<and> (\<forall>k. filter (\<lambda>y. edit_distance target y = k) (sort_key (edit_distance target) options)
           = filter (\<lambda>y. edit_distance target y = k) options)
   \<and> findClosest ''blue-50'' [''blue-500'', ''blue-600'', ''green-500'']
        = [''blue-500'', ''blue-600'', ''green-500'']
   \<and> edit_distance ''blue-50'' ''blue-500'' = 1
   \<and> edit_distance ''blue-50'' ''blue-600'' = 2
   \<and> 2 \<le> edit_distance ''blue-50'' ''green-500''
   \<and> levenshtein ''Blue'' ''blue'' = 1"
proof -
  let ?d = "edit_distance target"
  let ?s = "sort_key ?d options"
  have a: "levenshtein target candidate = edit_distance target candidate"
    by (rule levenshtein_edit_distance)
  have b: "findClosest target options = take 3 ?s" by (rule findClosest_sorted)
  have c: "length (findClosest target options) = min 3 (length options)"
    by (simp add: b min.commute)
  have srt: "sorted (map ?d ?s)" by (rule sorted_sort_key)
  have d: "sorted (map ?d (findClosest target options))"
    unfolding b take_map [symmetric] using srt by (rule sorted_wrt_take)
  have e: "\<forall>x \<in> set (findClosest target options).
        \<forall>y \<in> set options - set (findClosest target options). ?d x \<le> ?d y"
  proof (intro ballI)
    fix x y
    assume x: "x \<in> set (findClosest target options)"
      and y: "y \<in> set options - set (findClosest target options)"
    have "set ?s = set (take 3 ?s) \<union> set (drop 3 ?s)"
      by (metis append_take_drop_id set_append)
    with y have y': "y \<in> set (drop 3 ?s)" by (auto simp: b)
    have "sorted (map ?d (take 3 ?s) @ map ?d (drop 3 ?s))"
      using srt by (simp flip: map_append)
    with x y' show "?d x \<le> ?d y" by (auto simp: sorted_append b)
  qed
  have f: "\<forall>k. filter (\<lambda>y. ?d y = k) ?s = filter (\<lambda>y. ?d y = k) options"
    by (simp add: sort_key_stable)
  have g: "findClosest ''blue-50'' [''blue-500'', ''blue-600'', ''green-500'']
        = [''blue-500'', ''blue-600'', ''green-500'']"
  proof -
    have "sorted (map (edit_distance ''blue-50'') [''blue-500'', ''blue-600'', ''green-500''])"
      using blue_distances by simp
    then have "sort_key (edit_distance ''blue-50'') [''blue-500'', ''blue-600'', ''green-500'']
        = [''blue-500'', ''blue-600'', ''green-500'']"
      by (rule sort_key_id_if_sorted)
    then show ?thesis by (simp only: findClosest_sorted) simp
  qed
  have h: "levenshtein ''Blue'' ''blue'' = 1"
    by (simp add: levenshtein_edit_distance small_distances)
  from a b c d e f g h blue_distances show ?thesis by blast
qed

theorem findClosest_nearest_witness:
  "findClosest ''ab'' [''xyz'', ''ab'', ''b'', ''abc'', ''a''] = [''ab'', ''b'', ''abc'']
   \<and> ''a'' \<in> set [''xyz'', ''ab'', ''b'', ''abc'', ''a'']
        - set (findClosest ''ab'' [''xyz'', ''ab'', ''b'', ''abc'', ''a''])
   \<and> edit_distance ''ab'' ''abc'' \<le> edit_distance ''ab'' ''a''
   \<and> edit_distance ''ab'' ''abc'' \<le> edit_distance ''ab'' ''xyz''
   \<and> levenshtein ''ab'' ''xyz'' = 3"
proof -
  let ?pool = "[''xyz'', ''ab'', ''b'', ''abc'', ''a'']"
  note t = findClosest_nearest [of "''ab''" "''xyz''" ?pool]
  from t have "findClosest ''ab'' ?pool = take 3 (sort_key (edit_distance ''ab'') ?pool)"
    by (elim conjE)
  then have r: "findClosest ''ab'' ?pool = [''ab'', ''b'', ''abc'']"
    by (simp add: small_distances)
  from t have ball: "\<forall>x \<in> set (findClosest ''ab'' ?pool).
        \<forall>y \<in> set ?pool - set (findClosest ''ab'' ?pool).
          edit_distance ''ab'' x \<le> edit_distance ''ab'' y"
    by (elim conjE)
  have m1: "''a'' \<in> set ?pool - set (findClosest ''ab'' ?pool)" by (simp add: r)
  have m2: "''xyz'' \<in> set ?pool - set (findClosest ''ab'' ?pool)" by (simp add: r)
  have x: "''abc'' \<in> set (findClosest ''ab'' ?pool)" by (simp add: r)
  from ball x m1 have le1: "edit_distance ''ab'' ''abc'' \<le> edit_distance ''ab'' ''a''" by blast
  from ball x m2 have le2: "edit_distance ''ab'' ''abc'' \<le> edit_distance ''ab'' ''xyz''" by blast
  from t have "levenshtein ''ab'' ''xyz'' = edit_distance ''ab'' ''xyz''" by (elim conjE)
  then have l: "levenshtein ''ab'' ''xyz'' = 3" by (simp add: small_distances)
  from r m1 le1 le2 l show ?thesis by blast
qed

section \<open>ConfigExtractor: flattening and failures\<close>

text \<open>
  Claim C2, on a child key named \<open>DEFAULT\<close>. \<open>flattenObject\<close> joins every nested key to
  the key of its parent with a dash and has no special case: for the object
  \<open>{ primary: { DEFAULT: '#000', light: '#fff' } }\<close> it returns the flat keys
  \<open>primary-DEFAULT\<close> and \<open>primary-light\<close>, and no key \<open>primary\<close>.
\<close>

theorem flattenObject_DEFAULT_suffix:
  "flattenObject
     [(''primary'', JObject [(''DEFAULT'', JString ''#000''), (''light'', JString ''#fff'')])] []
   = [(''primary-DEFAULT'', ''#000''), (''primary-light'', ''#fff'')]"
  by (simp add: flattenObject_def obj_assign_def obj_put_def is_array_index_def is_digit_def)

lemma flattenObject_nested_key:
  assumes "parent \<noteq> []"
  shows "flattenObject [(parent, JObject [(key, JString s)])] [] = [(parent @ ''-'' @ key, s)]"
proof -
  have na: "\<not> is_array_index (parent @ ''-'' @ key)"
    by (simp add: is_array_index_def is_digit_def)
  have np: "parent @ ''-'' @ key \<noteq> ''__proto__''"
  proof
    assume "parent @ ''-'' @ key = ''__proto__''"
    then have "CHR ''-'' \<in> set ''__proto__''" by (metis in_set_conv_decomp append_Cons)
    then show False by simp
  qed
  show ?thesis using assms na np
    by (simp add: flattenObject_def obj_assign_def obj_put_def)
qed

lemma message_class_simps:
  "message_class ''No tailwind config file found'' = Some ConfigNotFound"
  "message_class (''Failed to read config file: '' @ x) = Some ReadFailure"
  "message_class (''Failed to parse config file: '' @ x) = Some ParseFailure"
  "message_class (''Failed to traverse AST: '' @ x) = Some TraversalFailure"
  by (simp_all add: message_class_def startsWith_def)

text \<open>
  Claim C8, two disjoint error kinds. A missing configuration file (unavailable) and a
  source that does not parse (malformed) are both reported by a \<open>ConfigParseError\<close>: the
  two errors have the same name and differ in their message only.
\<close>

theorem extractTruth_single_kind:
  "extractTruth env_missing ''/proj'' = Inl (ConfigParseError ''No tailwind config file found'')
   \<and> extractTruth env_garbled ''/proj''
       = Inl (ConfigParseError ''Failed to parse config file: SyntaxError: Unexpected token (1:18)'')
   \<and> name (ConfigParseError ''No tailwind config file found'')
       = name (ConfigParseError ''Failed to parse config file: SyntaxError: Unexpected token (1:18)'')"
  by (simp add: extractTruth_def find_config_def configFiles_def env_missing_def env_garbled_def
      ConfigParseError_def)

text \<open>
  Claim C8 as amended. Every failure of \<open>extractTruth\<close> is reported by an error of the one
  kind \<open>ConfigParseError\<close>, whose message identifies which of the four failure conditions
  occurred (no configuration file found, read failure, parse failure, traversal
  failure); \<open>extractTruth\<close> fails exactly when one of the four conditions holds, and
  never under two of them.
\<close>

theorem extractTruth_failure_kind:
  "(extractTruth env projectRoot = Inl e \<longrightarrow>
      name e = ''ConfigParseError''
      \<and> message_class (message e) = failure_of env projectRoot
      \<and> failure_of env projectRoot \<noteq> None)
   \<and> ((\<exists>e. extractTruth env projectRoot = Inl e) \<longleftrightarrow> failure_of env projectRoot \<noteq> None)"
  by (auto simp: extractTruth_def failure_of_def ConfigParseError_def message_class_simps
      simp del: append.simps split: option.splits sum.splits)

theorem extractTruth_failure_kind_witness:
  "extractTruth env_garbled ''/proj''
       = Inl (ConfigParseError ''Failed to parse config file: SyntaxError: Unexpected token (1:18)'')
   \<and> name (ConfigParseError ''Failed to parse config file: SyntaxError: Unexpected token (1:18)'')
       = ''ConfigParseError''
   \<and> message_class (message (ConfigParseError
         ''Failed to parse config file: SyntaxError: Unexpected token (1:18)'')) = Some ParseFailure
   \<and> failure_of env_garbled ''/proj'' = Some ParseFailure"
proof -
  let ?e = "ConfigParseError ''Failed to parse config file: SyntaxError: Unexpected token (1:18)''"
  have h: "extractTruth env_garbled ''/proj'' = Inl ?e"
    by (simp add: extractTruth_def find_config_def configFiles_def env_garbled_def)
  have f: "failure_of env_garbled ''/proj'' = Some ParseFailure"
    by (simp add: failure_of_def find_config_def configFiles_def env_garbled_def)
  from extractTruth_failure_kind [of env_garbled "''/proj''" ?e] h f
  show ?thesis by simp
qed

end
